theory Spec2Isabelle
  imports Main
begin

section \<open>Host values: emitted values, failures, pending operations\<close>

text \<open>
  The library (src/src/index.ts, src/src/helpers.ts) is written against the host's
  promises and timers. A pending operation is represented here by its settlement on a
  logical clock counted in milliseconds: it never settles, or it is fulfilled at a time
  with a value, or it is rejected at a time with a failure. Reactions registered with
  \<^verbatim>\<open>then\<close>/\<^verbatim>\<open>catch\<close> run at the time of the settlement they react to.
\<close>

datatype val = Undefined | Num int

text \<open>
  \<^verbatim>\<open>class TimeoutError extends Error { timedoutListener: string = '<unknown>' }\<close>
  (index.ts 113-118). The argument of \<open>TimeoutError\<close> is the field
  \<^verbatim>\<open>timedoutListener\<close>; \<open>Failure\<close> is any other error object, which has no such field.
\<close>

datatype error = TimeoutError string | Failure string

definition unknown :: string where
  "unknown = ''<unknown>''"

datatype promise = Unsettled | Fulfilled nat val | Rejected nat error

text \<open>A promise described relative to the moment it is created, placed on the clock.\<close>

fun after :: "nat \<Rightarrow> promise \<Rightarrow> promise" where
  "after now Unsettled = Unsettled"
| "after now (Fulfilled d v) = Fulfilled (now + d) v"
| "after now (Rejected d e) = Rejected (now + d) e"

text \<open>When the reactions of a promise run, for a party that attached them at \<open>now\<close>.\<close>

fun reacts_at :: "nat \<Rightarrow> promise \<Rightarrow> nat" where
  "reacts_at now Unsettled = now"
| "reacts_at now (Fulfilled t v) = max now t"
| "reacts_at now (Rejected t e) = max now t"

section \<open>helpers.ts: waitAll\<close>

text \<open>
  \<^verbatim>\<open>
  export function waitAll(promises:Promise<any>[]):Promise<void> {
      var n = promises.length;
      if (n === 0) return Promise.resolve();
      return new Promise<void>((resolve, reject) => {
          var count = () => { if (--n === 0) resolve(void 0) };
          for (var k = 0; k < n; ++k)
              Promise.resolve(promises[k]).then(count, reject);
      });
  }
  \<close>
  The state of the returned promise's executor is the counter \<open>n\<close> and the returned
  promise itself. \<open>resolve\<close> and \<open>reject\<close> of a promise that is already settled do
  nothing (\<open>settle\<close>). One reaction (\<open>count\<close> or \<open>reject\<close>) runs per settled input,
  in the order in which the inputs settle; inputs that settle in the same millisecond
  react in array order, the order in which the loop attached the reactions.
\<close>

definition settle :: "promise \<Rightarrow> promise \<Rightarrow> promise" where
  "settle outcome p = (if p = Unsettled then outcome else p)"

fun reaction :: "nat \<Rightarrow> promise \<Rightarrow> int \<times> promise \<Rightarrow> int \<times> promise" where
  "reaction now Unsettled (n, p) = (n, p)"
| "reaction now (Fulfilled t v) (n, p) =
     (let n' = n - 1 in (n', if n' = 0 then settle (Fulfilled (max now t) Undefined) p else p))"
| "reaction now (Rejected t e) (n, p) = (n, settle (Rejected (max now t) e) p)"

definition settlement_order :: "nat \<Rightarrow> promise list \<Rightarrow> promise list" where
  "settlement_order now promises =
     sort_key (reacts_at now) (filter (\<lambda>p. p \<noteq> Unsettled) promises)"

definition waitAll :: "nat \<Rightarrow> promise list \<Rightarrow> promise" where
  "waitAll now promises =
     (let n = int (length promises) in
      if n = 0 then Fulfilled now Undefined
      else snd (fold (reaction now) (settlement_order now promises) (n, Unsettled)))"

section \<open>index.ts: the timeout race\<close>

text \<open>
  \<^verbatim>\<open>
  function timeout<T>(p: Promise<T>, delay: number): Promise<T> {
    let e = new TimeoutError('Timeout waiting for event listener to complete');
    let timeout = new Promise((_, rej) => setTimeout(() => { rej(e); }, delay));
    return Promise.race([timeout, p]) as Promise<T>;
  }
  \<close>
  \<open>Promise.race\<close> settles as the input that settles first; of two inputs settled in
  the same millisecond the one earlier in the array is taken.
\<close>

fun first_settled :: "promise \<Rightarrow> promise \<Rightarrow> promise" where
  "first_settled Unsettled q = q"
| "first_settled p Unsettled = p"
| "first_settled p q = (if reacts_at 0 q < reacts_at 0 p then q else p)"

definition race :: "promise list \<Rightarrow> promise" where
  "race ps = foldr first_settled ps Unsettled"

definition timeout :: "nat \<Rightarrow> promise \<Rightarrow> nat \<Rightarrow> promise" where
  "timeout now p delay =
     (let e = TimeoutError unknown;
          timer = Rejected (now + delay) e
      in race [timer, p])"

section \<open>Listeners\<close>

text \<open>
  A listener is a function of the host program. What the library can observe of one call
  is: the calls it makes back into the library while it runs (\<open>subscribe\<close> and
  \<open>remove\<close> on an emitter, \<open>resolve\<close> of a promise made by \<open>next\<close>), and then
  either a throw, or a returned value, or a returned promise. \<open>Subscribe\<close> hands the
  new linked observable to the rest of the listener. A returned promise is given
  relative to the call (\<open>Fulfilled 50 v\<close>: fulfilled 50 ms after the call). The string
  is \<^verbatim>\<open>String(listener)\<close>, the text of the function.
\<close>

datatype returned = Plain val | Thenable promise

datatype outcome = Throw error | Return returned

datatype script =
    Done outcome
  | Subscribe nat "string \<times> (val \<Rightarrow> script)" "nat \<Rightarrow> script"
  | Remove nat nat script
  | Resolve nat val script

type_synonym listener = "string \<times> (val \<Rightarrow> script)"

text \<open>\<^verbatim>\<open>Promise.resolve(x)\<close> called at \<open>now\<close> on what a listener returned.\<close>

fun promise_resolve :: "nat \<Rightarrow> returned \<Rightarrow> promise" where
  "promise_resolve now (Plain v) = Fulfilled now v"
| "promise_resolve now (Thenable p) = after now p"

section \<open>index.ts: emitters and their subscription tables\<close>

text \<open>
  \<^verbatim>\<open>interface Options { emitTimeout?: number }\<close> and
  \<^verbatim>\<open>interface Subscription<T, U> { emit; target: Observable<U>; listener? }\<close>.
  Every emitter made by \<open>create\<close> is an object of its own; it is named by a number, and
  so is its \<open>subscribe\<close> observable. The field \<open>emit\<close> of a subscription is the
  closure \<^verbatim>\<open>item => Promise.resolve(listener(item)).then(emitter.emit)\<close>, determined by
  the listener and the child emitter; it is applied in \<open>emit_loop\<close> and \<open>then_emit\<close>.
  \<open>history\<close> records the calls of listeners and the changes of tables, and nothing
  reads it.
\<close>

record options =
  emitTimeout :: "nat option"

record subscription =
  target :: nat
  listener :: listener

record emitter =
  opts :: options
  subscriptions :: "subscription list"

datatype event = Invoked nat nat nat val | Pushed nat nat | Spliced nat nat

record world =
  emitters :: "nat \<Rightarrow> emitter"
  fresh :: nat
  cells :: "nat \<Rightarrow> val option"
  history :: "event list"

text \<open>
  \<^verbatim>\<open>
  export function create<T>(opts?: Options): Emitter<T> {
    opts = opts || {};
    var subscriptions: Array<Subscription<T, any>> = [];
  \<close>
\<close>

definition create :: "options option \<Rightarrow> world \<Rightarrow> nat \<times> world" where
  "create opts0 w =
     (let opts1 = (case opts0 of None \<Rightarrow> \<lparr>emitTimeout = None\<rparr> | Some given \<Rightarrow> given);
          e = fresh w
      in (e, w\<lparr>emitters := (emitters w)(e := \<lparr>opts = opts1, subscriptions = []\<rparr>),
               fresh := Suc e\<rparr>))"

text \<open>
  \<^verbatim>\<open>
  function subscribe<U>(listener: (t: T) => Promise<U>): LinkedObservable<U> {
    let emitter = create<U>()
    let sub = emitter.subscribe as LinkedObservable<U>
    subscriptions.push({
      emit: item => Promise.resolve(listener(item)).then(emitter.emit),
      target: sub,
      listener: listener
    });
    sub.unlink = () => remove(sub);
    return sub;
  }
  \<close>
\<close>

definition subscribe :: "nat \<Rightarrow> listener \<Rightarrow> world \<Rightarrow> nat \<times> world" where
  "subscribe e l w =
     (case create None w of (child, w1) \<Rightarrow>
        (let sub = child;
             pushed = subscriptions (emitters w1 e) @ [\<lparr>target = sub, listener = l\<rparr>]
         in (sub, w1\<lparr>emitters := (emitters w1)(e := (emitters w1 e)\<lparr>subscriptions := pushed\<rparr>),
                     history := history w1 @ [Pushed e sub]\<rparr>)))"

text \<open>
  \<^verbatim>\<open>
  function remove<U>(target: LinkedObservable<U>) {
    for (var k = 0; k < subscriptions.length; ++k)
      if (subscriptions[k].target == target) return subscriptions.splice(k, 1);
  }
  \<close>
\<close>

function remove_scan :: "nat \<Rightarrow> nat \<Rightarrow> subscription list \<Rightarrow> nat option" where
  "remove_scan k tg subs =
     (if k < length subs
      then (if target (subs ! k) = tg then Some k else remove_scan (Suc k) tg subs)
      else None)"
  by pat_completeness auto
termination
  by (relation "measure (\<lambda>(k, tg, subs). length subs - k)") auto

declare remove_scan.simps [simp del]

definition splice1 :: "nat \<Rightarrow> 'a list \<Rightarrow> 'a list" where
  "splice1 k xs = take k xs @ drop (Suc k) xs"

definition remove :: "nat \<Rightarrow> nat \<Rightarrow> world \<Rightarrow> world" where
  "remove e tg w =
     (case remove_scan 0 tg (subscriptions (emitters w e)) of
        None \<Rightarrow> w
      | Some k \<Rightarrow>
          w\<lparr>emitters := (emitters w)
               (e := (emitters w e)\<lparr>subscriptions := splice1 k (subscriptions (emitters w e))\<rparr>),
            history := history w @ [Spliced e k]\<rparr>)"

text \<open>\<^verbatim>\<open>sub.unlink = () => remove(sub)\<close>, with \<open>remove\<close> the parent's.\<close>

definition unlink :: "nat \<Rightarrow> nat \<Rightarrow> world \<Rightarrow> world" where
  "unlink parent sub w = remove parent sub w"

text \<open>The \<open>resolve\<close> function of the promise made by \<open>next\<close>; the promise is a cell.\<close>

definition resolve :: "nat \<Rightarrow> val \<Rightarrow> world \<Rightarrow> world" where
  "resolve c v w =
     (case cells w c of None \<Rightarrow> w\<lparr>cells := (cells w)(c := Some v)\<rparr> | Some old \<Rightarrow> w)"

text \<open>One call of a listener: its calls into the library, in order, then its outcome.\<close>

primrec run_script :: "script \<Rightarrow> world \<Rightarrow> outcome \<times> world" where
  "run_script (Done r) w = (r, w)"
| "run_script (Subscribe e l k) w = (case subscribe e l w of (sub, w1) \<Rightarrow> run_script (k sub) w1)"
| "run_script (Remove e tg k) w = run_script k (remove e tg w)"
| "run_script (Resolve c v k) w = run_script k (resolve c v w)"

section \<open>index.ts: emit\<close>

text \<open>
  \<^verbatim>\<open>
  function emit(t: T) {
    opts = opts || {};
    var results: any[] = [];
    for (var k = 0; k < subscriptions.length; k) {
      var current = subscriptions[k];
      var emitPromise = Promise.resolve(current.emit(t));
      if (opts.emitTimeout != null)
        emitPromise = timeout(emitPromise, opts.emitTimeout).catch(e => {
          if (e.timedoutListener === '<unknown>')
            e.timedoutListener = String(current.listener);
          throw e;
        });
      results.push(emitPromise);
      if (current === subscriptions[k]) ++k;
    }
    return helpers.waitAll(results);
  }
  \<close>
  The loop runs synchronously at the time of the call. In it, \<open>current.emit(t)\<close> calls
  the listener at once; a throw of the listener leaves \<open>emit\<close> through the loop, which
  has no handler. Everything else that an iteration sets up runs later, from the host's
  job queue, after the loop has ended: the callback \<open>emitter.emit\<close> of \<open>then\<close>, and
  the handler of \<open>catch\<close>. So the loop (\<open>emit_loop\<close>) collects, per iteration, the
  entry and what its listener returned, and the promises are built from that (\<open>emit\<close>)
  with the state the callbacks find: the tables as the loop left them, and the variable
  \<open>current\<close>, which is declared with \<open>var\<close> and so is one variable of the call,
  holding the entry of the last iteration (the entry of the last element of what the loop
  collected).

  The loop need not end (a listener may subscribe a listener that does the same), so it
  takes fuel; \<open>None\<close> is a call that does not return. \<open>current === subscriptions[k]\<close>
  compares objects; an entry is made by \<open>subscribe\<close> only, with a new target each time,
  so entries are compared by target.
\<close>

fun emit_loop ::
  "nat \<Rightarrow> nat \<Rightarrow> val \<Rightarrow> nat \<Rightarrow> (subscription \<times> returned) list \<Rightarrow> world \<Rightarrow>
   ((error + (subscription \<times> returned) list) \<times> world) option" where
  "emit_loop 0 e t k results w = None"
| "emit_loop (Suc n) e t k results w =
     (let subs = subscriptions (emitters w e) in
      if k < length subs then
        (let current = subs ! k;
             w0 = w\<lparr>history := history w @ [Invoked e k (target current) t]\<rparr>
         in case run_script (snd (listener current) t) w0 of
              (Throw err, w1) \<Rightarrow> Some (Inl err, w1)
            | (Return x, w1) \<Rightarrow>
                (let subs1 = subscriptions (emitters w1 e);
                     k1 = (if k < length subs1 \<and> target (subs1 ! k) = target current
                           then Suc k else k)
                 in emit_loop n e t k1 (results @ [(current, x)]) w1))
      else Some (Inr results, w))"

text \<open>
  \<^verbatim>\<open>.then(emitter.emit)\<close> on the listener's promise: a rejection passes through, a
  value is emitted on the child when the promise is fulfilled. A throw inside the
  callback rejects the promise that \<open>then\<close> returned; a promise returned by the
  callback is followed.
\<close>

definition then_emit ::
  "(val \<Rightarrow> nat \<Rightarrow> world \<Rightarrow> ((error + promise) \<times> world) option) \<Rightarrow> world \<Rightarrow> promise \<Rightarrow>
   promise option" where
  "then_emit child_emit w p =
     (case p of
        Unsettled \<Rightarrow> Some Unsettled
      | Rejected t1 err \<Rightarrow> Some (Rejected t1 err)
      | Fulfilled t1 u \<Rightarrow>
          (case child_emit u t1 w of
             None \<Rightarrow> None
           | Some (Inl err, w1) \<Rightarrow> Some (Rejected t1 err)
           | Some (Inr q, w1) \<Rightarrow> Some q))"

text \<open>
  What the field \<open>emit\<close> of an entry does after the listener has returned \<open>x\<close>:
  \<^verbatim>\<open>Promise.resolve(x).then(emitter.emit)\<close>, the forwarding chain of the entry.
\<close>

definition forward ::
  "(val \<Rightarrow> nat \<Rightarrow> world \<Rightarrow> ((error + promise) \<times> world) option) \<Rightarrow> world \<Rightarrow> nat \<Rightarrow>
   returned \<Rightarrow> promise option" where
  "forward child_emit w now x = then_emit child_emit w (promise_resolve now x)"

text \<open>The handler given to \<open>catch\<close>, with \<open>description\<close> for \<open>String(current.listener)\<close>.\<close>

definition stamp :: "string \<Rightarrow> error \<Rightarrow> error" where
  "stamp description e =
     (case e of
        TimeoutError timedoutListener \<Rightarrow>
          if timedoutListener = unknown then TimeoutError description else e
      | Failure m \<Rightarrow> e)"

definition catch_rethrow :: "(error \<Rightarrow> error) \<Rightarrow> promise \<Rightarrow> promise" where
  "catch_rethrow handler p =
     (case p of Rejected t e \<Rightarrow> Rejected t (handler e) | Fulfilled t v \<Rightarrow> p | Unsettled \<Rightarrow> p)"

definition entry_promise ::
  "(nat \<Rightarrow> val \<Rightarrow> nat \<Rightarrow> world \<Rightarrow> ((error + promise) \<times> world) option) \<Rightarrow> world \<Rightarrow> nat \<Rightarrow>
   options \<Rightarrow> (subscription \<times> returned) list \<Rightarrow> subscription \<times> returned \<Rightarrow>
   promise option" where
  "entry_promise emit_of w now os collected = (\<lambda>(s, x).
     (case forward (emit_of (target s)) w now x of
        None \<Rightarrow> None
      | Some emitPromise \<Rightarrow>
          Some (case emitTimeout os of
                  None \<Rightarrow> emitPromise
                | Some delay \<Rightarrow>
                    (let current = fst (last collected)
                     in catch_rethrow (stamp (fst (listener current)))
                          (timeout now emitPromise delay)))))"

primrec emit ::
  "nat \<Rightarrow> nat \<Rightarrow> val \<Rightarrow> nat \<Rightarrow> world \<Rightarrow> ((error + promise) \<times> world) option" where
  "emit 0 e t now w = None"
| "emit (Suc n) e t now w =
     (case emit_loop (Suc n) e t 0 [] w of
        None \<Rightarrow> None
      | Some (Inl err, w1) \<Rightarrow> Some (Inl err, w1)
      | Some (Inr collected, w1) \<Rightarrow>
          (case those (map (entry_promise (emit n) w1 now (opts (emitters w e)) collected)
                         collected) of
             None \<Rightarrow> None
           | Some results \<Rightarrow> Some (Inr (waitAll now results), w1)))"

text \<open>
  \<^verbatim>\<open>
  function next(predicate: (t: T) => boolean) {
    return new Promise<T>((resolve: (t: T) => void) => {
      var sub = subscribe(item => {
        if (predicate == null || predicate(item)) {
          remove(sub);
          resolve(item);
        }
      });
    });
  }
  \<close>
  The returned promise is a cell that only \<open>resolve\<close> writes. The listener refers to
  the variable \<open>sub\<close>, which holds what \<open>subscribe\<close> returned by the time the
  listener is first called: the emitter that \<open>subscribe\<close> creates, \<open>fresh\<close> of the
  world after the cell is taken.
\<close>

text \<open>\<^verbatim>\<open>predicate == null || predicate(item)\<close>\<close>

definition accepts :: "(val \<Rightarrow> bool) option \<Rightarrow> val \<Rightarrow> bool" where
  "accepts predicate item = (case predicate of None \<Rightarrow> True | Some holds \<Rightarrow> holds item)"

definition next_listener :: "nat \<Rightarrow> nat \<Rightarrow> nat \<Rightarrow> (val \<Rightarrow> bool) option \<Rightarrow> listener" where
  "next_listener e sub cell predicate =
     (''item => { if (predicate == null || predicate(item)) { remove(sub); resolve(item); } }'',
      \<lambda>item. if accepts predicate item
             then Remove e sub (Resolve cell item (Done (Return (Plain Undefined))))
             else Done (Return (Plain Undefined)))"

definition "next" :: "nat \<Rightarrow> (val \<Rightarrow> bool) option \<Rightarrow> world \<Rightarrow> nat \<times> world" where
  "next e predicate w =
     (let cell = fresh w;
          w1 = w\<lparr>cells := (cells w)(cell := None), fresh := Suc cell\<rparr>
      in case subscribe e (next_listener e (fresh w1) cell predicate) w1 of
           (sub, w2) \<Rightarrow> (cell, w2))"

section \<open>Worlds and example programs\<close>

text \<open>The world before any emitter is created.\<close>

definition initial :: world where
  "initial = \<lparr>emitters = (\<lambda>e. \<lparr>opts = \<lparr>emitTimeout = None\<rparr>, subscriptions = []\<rparr>), fresh = 0,
              cells = (\<lambda>c. None), history = []\<rparr>"

text \<open>
  \<open>subscribe\<close> is the only place where an entry is made, and the target it gives the
  entry is an emitter created for it. So in every table the targets are pairwise distinct
  and, since emitters are numbered in the order of their creation, increasing: the order
  of registration is the order of the targets.
\<close>

definition well_formed :: "world \<Rightarrow> bool" where
  "well_formed w \<longleftrightarrow>
     (\<forall>e. sorted_wrt (<) (map target (subscriptions (emitters w e))) \<and>
          (\<forall>s\<in>set (subscriptions (emitters w e)). target s < fresh w))"

text \<open>
  The listeners of the test \<^verbatim>\<open>timeouts\<close> of index.spec.ts:
  \<^verbatim>\<open>function slow() { return delay(50); }\<close> and \<^verbatim>\<open>function fast() { return delay(1); }\<close>,
  with \<^verbatim>\<open>delay(time) = new Promise(resolve => setTimeout(resolve, time))\<close>.
\<close>

definition delay :: "nat \<Rightarrow> returned" where
  "delay time = Thenable (Fulfilled time Undefined)"

definition slow :: listener where
  "slow = (''function slow() { return delay(50); }'', \<lambda>v. Done (Return (delay 50)))"

definition fast :: listener where
  "fast = (''function fast() { return delay(1); }'', \<lambda>v. Done (Return (delay 1)))"

text \<open>
  The worlds that the operations of the library produce from the initial one. \<open>script\<close>
  is a listener, or any other piece of the host program, calling into the library.
\<close>

inductive reachable :: "world \<Rightarrow> bool" where
  initial: "reachable initial"
| create: "reachable w \<Longrightarrow> reachable (snd (create given w))"
| subscribe: "reachable w \<Longrightarrow> reachable (snd (subscribe e l w))"
| remove: "reachable w \<Longrightarrow> reachable (remove e tg w)"
| script: "reachable w \<Longrightarrow> reachable (snd (run_script s w))"
| next_event: "reachable w \<Longrightarrow> reachable (snd (next e predicate w))"
| emit: "reachable w \<Longrightarrow> emit n e t now w = Some (r, w1) \<Longrightarrow> reachable w1"

text \<open>No child emitter (the target of an entry) has a timeout configured.\<close>

definition untimed_children :: "world \<Rightarrow> bool" where
  "untimed_children w \<longleftrightarrow>
     (\<forall>e. \<forall>s\<in>set (subscriptions (emitters w e)). emitTimeout (opts (emitters w (target s))) = None)"

text \<open>
  The set-up of the test \<^verbatim>\<open>timeouts\<close>: an emitter created with
  \<^verbatim>\<open>{ emitTimeout: 10 }\<close> and two listeners subscribed to it, in the given order.
\<close>

definition timeouts_world :: "listener \<Rightarrow> listener \<Rightarrow> world" where
  "timeouts_world first second =
     snd (subscribe 0 second (snd (subscribe 0 first
       (snd (create (Some \<lparr>emitTimeout = Some 10\<rparr>) initial)))))"

text \<open>A listener that throws when it is called, subscribed before \<open>fast\<close>.\<close>

definition thrower :: listener where
  "thrower = (''function thrower() { throw boom; }'', \<lambda>v. Done (Throw (Failure ''boom'')))"

definition throwing_world :: world where
  "throwing_world = snd (subscribe 0 fast (snd (subscribe 0 thrower (snd (create None initial)))))"

section \<open>Runs\<close>

text \<open>The targets of the table of an emitter, in table order.\<close>

definition targets :: "nat \<Rightarrow> world \<Rightarrow> nat list" where
  "targets e w = map target (subscriptions (emitters w e))"

text \<open>
  What \<open>history\<close> gained from one world to a later one, and whether the later one
  is later at all.
\<close>

definition since :: "world \<Rightarrow> world \<Rightarrow> event list" where
  "since w w1 = drop (length (history w)) (history w1)"

definition extends :: "world \<Rightarrow> world \<Rightarrow> bool" where
  "extends w w1 \<longleftrightarrow> (\<exists>evs. history w1 = history w @ evs)"

text \<open>
  The calls of listeners that \<open>emit\<close> made on emitter \<open>e\<close>: target of the entry and
  value passed, in order.
\<close>

fun calls :: "nat \<Rightarrow> event list \<Rightarrow> (nat \<times> val) list" where
  "calls e [] = []"
| "calls e (Invoked e' k tg t # evs) = (if e' = e then (tg, t) # calls e evs else calls e evs)"
| "calls e (Spliced e' i # evs) = calls e evs"
| "calls e (Pushed e' tg # evs) = calls e evs"

fun is_call :: "event \<Rightarrow> bool" where
  "is_call (Invoked e k tg t) = True"
| "is_call ev = False"

text \<open>
  Every entry that a \<open>remove\<close> took out of the table of \<open>e\<close> was, at that moment, at
  the position \<open>k\<close> of the entry being called or behind it: the current entry or a
  later one.
\<close>

fun removals_ok :: "nat \<Rightarrow> nat \<Rightarrow> event list \<Rightarrow> bool" where
  "removals_ok e k [] = True"
| "removals_ok e k (Invoked e' k' tg t # evs) = removals_ok e (if e' = e then k' else k) evs"
| "removals_ok e k (Spliced e' i # evs) = ((e' = e \<longrightarrow> k \<le> i) \<and> removals_ok e k evs)"
| "removals_ok e k (Pushed e' tg # evs) = removals_ok e k evs"

text \<open>A listener's call that does not subscribe anything.\<close>

primrec no_subscribe :: "script \<Rightarrow> bool" where
  "no_subscribe (Done r) = True"
| "no_subscribe (Subscribe e l k) = False"
| "no_subscribe (Remove e tg s) = no_subscribe s"
| "no_subscribe (Resolve c v s) = no_subscribe s"

text \<open>
  An emitter with a pending \<open>next()\<close> and, subscribed after it, \<open>fast\<close>; and an
  emitter with a listener that, when called, subscribes \<open>fast\<close> to the same emitter.
\<close>

definition next_then_fast :: world where
  "next_then_fast = snd (subscribe 0 fast (snd (next 0 None (snd (create None initial)))))"



text \<open>A promise that has settled before a deadline.\<close>

fun settled_before :: "nat \<Rightarrow> promise \<Rightarrow> bool" where
  "settled_before deadline Unsettled = False"
| "settled_before deadline (Fulfilled t v) = (t < deadline)"
| "settled_before deadline (Rejected t e) = (t < deadline)"










section \<open>Properties of waitAll\<close>

lemma waitAll_empty: "waitAll now [] = Fulfilled now Undefined"
  by (simp add: waitAll_def)

lemma settled_stays: "p \<noteq> Unsettled \<Longrightarrow> snd (fold (reaction now) evs (n, p)) = p"
proof (induction evs arbitrary: n)
  case Nil then show ?case by simp
next
  case (Cons a evs)
  then show ?case by (cases a) (simp_all add: settle_def Let_def)
qed

lemma first_rejection_wins:
  "find (\<lambda>p. \<exists>t e. p = Rejected t e) evs = Some (Rejected t e) \<Longrightarrow> length evs \<le> n \<Longrightarrow>
   snd (fold (reaction now) evs (int n, Unsettled)) = Rejected (max now t) e"
proof (induction evs arbitrary: n)
  case Nil then show ?case by simp
next
  case (Cons a evs)
  show ?case
  proof (cases a)
    case Unsettled
    with Cons show ?thesis by simp
  next
    case (Fulfilled t' v)
    with Cons.prems have f: "find (\<lambda>p. \<exists>t e. p = Rejected t e) evs = Some (Rejected t e)" by simp
    then have "evs \<noteq> []" by auto
    with Cons.prems have n: "2 \<le> n" by (cases evs) auto
    then have "int n - 1 = int (n - 1)" "int (n - 1) \<noteq> 0" by auto
    moreover have "length evs \<le> n - 1" using Cons.prems by simp
    ultimately show ?thesis using Cons.IH[OF f, of "n - 1"] Fulfilled by (simp add: Let_def)
  next
    case (Rejected t' e')
    with Cons.prems have "t' = t" "e' = e" by auto
    then show ?thesis using Rejected by (simp add: settle_def settled_stays)
  qed
qed

lemma all_fulfilled_count:
  "\<forall>p\<in>set evs. \<exists>t v. p = Fulfilled t v \<Longrightarrow> length evs \<le> n \<Longrightarrow>
   fold (reaction now) evs (int n, Unsettled) =
     (int n - int (length evs),
      if evs \<noteq> [] \<and> length evs = n then Fulfilled (reacts_at now (last evs)) Undefined else Unsettled)"
proof (induction evs rule: rev_induct)
  case Nil then show ?case by simp
next
  case (snoc x xs)
  then obtain t v where x: "x = Fulfilled t v" by auto
  from snoc have "length xs < n" by simp
  with snoc x show ?case by (auto simp: Let_def settle_def)
qed

lemma sorted_last_Max:
  "sorted (map f xs) \<Longrightarrow> xs \<noteq> [] \<Longrightarrow> f (last xs) = Max (f ` set xs)"
proof (induction xs)
  case Nil then show ?case by simp
next
  case (Cons a xs)
  show ?case
  proof (cases "xs = []")
    case True then show ?thesis by simp
  next
    case False
    with Cons have ih: "f (last xs) = Max (f ` set xs)" by simp
    from Cons.prems have "\<forall>y\<in>set xs. f a \<le> f y" by simp
    moreover have "last xs \<in> set xs" using False by simp
    ultimately have "f a \<le> f (last xs)" by blast
    with ih False show ?thesis by (simp add: max_def)
  qed
qed

lemma find_sorted_least:
  assumes "sorted (map f xs)" "find P xs = Some x" "y \<in> set xs" "P y"
  shows "f x \<le> f y"
  using assms
proof (induction xs)
  case Nil then show ?case by simp
next
  case (Cons a xs)
  show ?case
  proof (cases "P a")
    case True
    with Cons.prems have "x = a" by simp
    with Cons.prems show ?thesis by auto
  next
    case False
    with Cons show ?thesis by auto
  qed
qed

lemma find_Some_mem: "find P xs = Some x \<Longrightarrow> x \<in> set xs \<and> P x"
  by (induction xs) (auto split: if_splits)

lemma find_exists: "y \<in> set xs \<Longrightarrow> P y \<Longrightarrow> \<exists>x. find P xs = Some x"
  by (induction xs) auto

lemma settlement_order_set: "set (settlement_order now ps) = {p \<in> set ps. p \<noteq> Unsettled}"
  by (auto simp: settlement_order_def)

lemma settlement_order_sorted: "sorted (map (reacts_at now) (settlement_order now ps))"
  by (simp add: settlement_order_def)

lemma settlement_order_length: "length (settlement_order now ps) \<le> length ps"
  by (simp add: settlement_order_def)

lemma waitAll_all_fulfilled:
  assumes "ps \<noteq> []" "\<forall>p\<in>set ps. \<exists>t v. p = Fulfilled t v"
  shows "waitAll now ps = Fulfilled (Max (reacts_at now ` set ps)) Undefined"
proof -
  let ?evs = "settlement_order now ps"
  have flt: "filter (\<lambda>p. p \<noteq> Unsettled) ps = ps" using assms(2) by (auto simp: filter_id_conv)
  have len: "length ?evs = length ps" by (simp add: settlement_order_def flt)
  have st: "set ?evs = set ps" by (simp add: settlement_order_def flt)
  have ne: "?evs \<noteq> []" using len assms(1) by auto
  have "fold (reaction now) ?evs (int (length ps), Unsettled) =
        (int (length ps) - int (length ?evs), Fulfilled (reacts_at now (last ?evs)) Undefined)"
    using all_fulfilled_count[of ?evs "length ps" now] assms(2) st len ne by simp
  moreover have "reacts_at now (last ?evs) = Max (reacts_at now ` set ps)"
    using sorted_last_Max[OF settlement_order_sorted ne] st by simp
  ultimately show ?thesis using assms(1) by (simp add: waitAll_def)
qed

lemma waitAll_rejected:
  assumes "Rejected t0 e0 \<in> set ps"
  shows "\<exists>t e. waitAll now ps = Rejected (max now t) e \<and> Rejected t e \<in> set ps \<and>
           (\<forall>t' e'. Rejected t' e' \<in> set ps \<longrightarrow> max now t \<le> max now t')"
proof -
  let ?evs = "settlement_order now ps"
  let ?R = "\<lambda>p. \<exists>t e. p = Rejected t e"
  have "Rejected t0 e0 \<in> set ?evs" using assms by (simp add: settlement_order_set)
  then obtain x where fx: "find ?R ?evs = Some x" using find_exists[of _ ?evs ?R] by blast
  then have "x \<in> set ?evs" "?R x" using find_Some_mem[OF fx] by auto
  then obtain t e where x: "x = Rejected t e" by auto
  have mem: "Rejected t e \<in> set ps" using \<open>x \<in> set ?evs\<close> x by (simp add: settlement_order_set)
  have least: "max now t \<le> max now t'" if "Rejected t' e' \<in> set ps" for t' e'
  proof -
    have "Rejected t' e' \<in> set ?evs" using that by (simp add: settlement_order_set)
    from find_sorted_least[OF settlement_order_sorted fx this] x show ?thesis by auto
  qed
  have "ps \<noteq> []" using assms by auto
  then have "waitAll now ps = snd (fold (reaction now) ?evs (int (length ps), Unsettled))"
    by (simp add: waitAll_def)
  also have "\<dots> = Rejected (max now t) e"
    using first_rejection_wins[of ?evs t e "length ps" now] fx x settlement_order_length by simp
  finally show ?thesis using mem least by blast
qed

lemma waitAll_waits:
  assumes "Unsettled \<in> set ps" "\<forall>t e. Rejected t e \<notin> set ps"
  shows "waitAll now ps = Unsettled"
proof -
  let ?evs = "settlement_order now ps"
  have ful: "\<forall>p\<in>set ?evs. \<exists>t v. p = Fulfilled t v"
  proof
    fix p assume "p \<in> set ?evs"
    then have "p \<in> set ps" "p \<noteq> Unsettled" by (auto simp: settlement_order_set)
    with assms(2) show "\<exists>t v. p = Fulfilled t v" by (cases p) auto
  qed
  have "length (filter (\<lambda>p. p \<noteq> Unsettled) ps) < length ps"
    using assms(1) by (simp add: length_filter_less)
  then have lt: "length ?evs < length ps" by (simp add: settlement_order_def)
  have "ps \<noteq> []" using assms by auto
  then show ?thesis
    using all_fulfilled_count[OF ful, of "length ps" now] lt by (simp add: waitAll_def)
qed

text \<open>
  Claim C5. \<open>waitAll\<close> of no promises is fulfilled at once. Of a non-empty array
  it is fulfilled exactly when every input is fulfilled, and then at the moment the last
  of them is; and as soon as an input is rejected it is rejected with the failure of an
  input that is rejected first, whatever the other inputs do (they may never settle),
  with that one failure and no other.
\<close>

theorem waitAll_contract:
  "waitAll now [] = Fulfilled now Undefined \<and>
   (ps \<noteq> [] \<longrightarrow>
      ((\<exists>t v. waitAll now ps = Fulfilled t v) \<longleftrightarrow> (\<forall>p\<in>set ps. \<exists>t v. p = Fulfilled t v)) \<and>
      ((\<forall>p\<in>set ps. \<exists>t v. p = Fulfilled t v) \<longrightarrow>
         waitAll now ps = Fulfilled (Max (reacts_at now ` set ps)) Undefined) \<and>
      ((\<exists>t e. Rejected t e \<in> set ps) \<longrightarrow>
         (\<exists>t e. waitAll now ps = Rejected (max now t) e \<and> Rejected t e \<in> set ps \<and>
                (\<forall>t' e'. Rejected t' e' \<in> set ps \<longrightarrow> max now t \<le> max now t'))))"
proof (intro conjI impI)
  show "waitAll now [] = Fulfilled now Undefined" by (rule waitAll_empty)
next
  assume ne: "ps \<noteq> []"
  show "(\<exists>t v. waitAll now ps = Fulfilled t v) \<longleftrightarrow> (\<forall>p\<in>set ps. \<exists>t v. p = Fulfilled t v)"
  proof
    assume ful: "\<exists>t v. waitAll now ps = Fulfilled t v"
    show "\<forall>p\<in>set ps. \<exists>t v. p = Fulfilled t v"
    proof (rule ccontr)
      assume "\<not> (\<forall>p\<in>set ps. \<exists>t v. p = Fulfilled t v)"
      then obtain p where p: "p \<in> set ps" "\<forall>t v. p \<noteq> Fulfilled t v" by blast
      show False
      proof (cases "\<exists>t e. Rejected t e \<in> set ps")
        case True
        then obtain t e where "Rejected t e \<in> set ps" by blast
        from waitAll_rejected[OF this, of now] ful show False by auto
      next
        case False
        have "p = Unsettled" using p(2) False p(1) by (metis promise.exhaust)
        with p have "Unsettled \<in> set ps" by simp
        from waitAll_waits[OF this, of now] False ful show False by auto
      qed
    qed
  next
    assume "\<forall>p\<in>set ps. \<exists>t v. p = Fulfilled t v"
    from waitAll_all_fulfilled[OF ne this, of now] show "\<exists>t v. waitAll now ps = Fulfilled t v"
      by blast
  qed
next
  assume "ps \<noteq> []" "\<forall>p\<in>set ps. \<exists>t v. p = Fulfilled t v"
  then show "waitAll now ps = Fulfilled (Max (reacts_at now ` set ps)) Undefined"
    by (rule waitAll_all_fulfilled)
next
  assume "\<exists>t e. Rejected t e \<in> set ps"
  then obtain t e where "Rejected t e \<in> set ps" by blast
  then show "\<exists>t e. waitAll now ps = Rejected (max now t) e \<and> Rejected t e \<in> set ps \<and>
                (\<forall>t' e'. Rejected t' e' \<in> set ps \<longrightarrow> max now t \<le> max now t')"
    by (rule waitAll_rejected)
qed

theorem waitAll_contract_witness:
  "waitAll 0 [Fulfilled 5 (Num 1), Fulfilled 9 (Num 2)] = Fulfilled 9 Undefined \<and>
   waitAll 0 [Fulfilled 5 (Num 1), Rejected 3 (Failure ''boom''), Unsettled,
              Rejected 7 (Failure ''late'')] = Rejected 3 (Failure ''boom'')"
proof
  show "waitAll 0 [Fulfilled 5 (Num 1), Fulfilled 9 (Num 2)] = Fulfilled 9 Undefined"
    using waitAll_contract[of 0 "[Fulfilled 5 (Num 1), Fulfilled 9 (Num 2)]"] by simp
next
  have "\<exists>t e. waitAll 0 [Fulfilled 5 (Num 1), Rejected 3 (Failure ''boom''), Unsettled,
              Rejected 7 (Failure ''late'')] = Rejected (max 0 t) e \<and>
          (t = 3 \<and> e = Failure ''boom'' \<or> t = 7 \<and> e = Failure ''late'') \<and> max 0 t \<le> 3"
    using waitAll_contract[of 0 "[Fulfilled 5 (Num 1), Rejected 3 (Failure ''boom''), Unsettled,
              Rejected 7 (Failure ''late'')]"] by auto
  then show "waitAll 0 [Fulfilled 5 (Num 1), Rejected 3 (Failure ''boom''), Unsettled,
              Rejected 7 (Failure ''late'')] = Rejected 3 (Failure ''boom'')"
    by auto
qed

section \<open>Properties of remove\<close>

lemma remove_scan_None:
  "remove_scan k tg subs = None \<longleftrightarrow> (\<forall>j. k \<le> j \<and> j < length subs \<longrightarrow> target (subs ! j) \<noteq> tg)"
proof (induction k tg subs rule: remove_scan.induct)
  case (1 k tg subs)
  show ?case
  proof (cases "k < length subs")
    case False
    then show ?thesis by (simp add: remove_scan.simps[of k])
  next
    case True
    show ?thesis
    proof (cases "target (subs ! k) = tg")
      case True
      with \<open>k < length subs\<close> show ?thesis by (auto simp: remove_scan.simps[of k])
    next
      case False
      have "(\<forall>j. k \<le> j \<and> j < length subs \<longrightarrow> target (subs ! j) \<noteq> tg) \<longleftrightarrow>
            (\<forall>j. Suc k \<le> j \<and> j < length subs \<longrightarrow> target (subs ! j) \<noteq> tg)"
        using False by (metis Suc_leI le_neq_implies_less Suc_leD)
      with 1 True False show ?thesis by (simp add: remove_scan.simps[of k])
    qed
  qed
qed

lemma remove_scan_Some:
  "remove_scan k tg subs = Some i \<Longrightarrow>
     k \<le> i \<and> i < length subs \<and> target (subs ! i) = tg \<and>
     (\<forall>j. k \<le> j \<and> j < i \<longrightarrow> target (subs ! j) \<noteq> tg)"
proof (induction k tg subs rule: remove_scan.induct)
  case (1 k tg subs)
  show ?case
  proof (cases "k < length subs")
    case False
    with 1 show ?thesis by (simp add: remove_scan.simps[of k])
  next
    case True
    show ?thesis
    proof (cases "target (subs ! k) = tg")
      case True
      with \<open>k < length subs\<close> 1 show ?thesis by (auto simp: remove_scan.simps[of k])
    next
      case False
      with 1 True have "remove_scan (Suc k) tg subs = Some i" by (simp add: remove_scan.simps[of k])
      with 1 True False have ih: "Suc k \<le> i \<and> i < length subs \<and> target (subs ! i) = tg \<and>
        (\<forall>j. Suc k \<le> j \<and> j < i \<longrightarrow> target (subs ! j) \<noteq> tg)" by simp
      then show ?thesis using False by (metis Suc_leI le_neq_implies_less Suc_leD)
    qed
  qed
qed

lemma remove_absent:
  "tg \<notin> target ` set (subscriptions (emitters w e)) \<Longrightarrow> remove e tg w = w"
proof -
  assume a: "tg \<notin> target ` set (subscriptions (emitters w e))"
  have "remove_scan 0 tg (subscriptions (emitters w e)) = None"
    unfolding remove_scan_None using a by (metis image_eqI nth_mem)
  then show ?thesis by (simp add: remove_def)
qed

lemma splice1_targets:
  "i < length subs \<Longrightarrow> distinct (map target subs) \<Longrightarrow>
   target (subs ! i) \<notin> target ` set (splice1 i subs)"
proof -
  assume i: "i < length subs" and d: "distinct (map target subs)"
  have "subs = take i subs @ subs ! i # drop (Suc i) subs" using i by (simp add: id_take_nth_drop)
  then have "distinct (map target (take i subs @ subs ! i # drop (Suc i) subs))" using d by simp
  then show ?thesis by (auto simp: splice1_def)
qed

lemma remove_twice:
  assumes "distinct (map target (subscriptions (emitters w e)))"
  shows "remove e tg (remove e tg w) = remove e tg w"
proof (cases "remove_scan 0 tg (subscriptions (emitters w e))")
  case None
  then show ?thesis by (simp add: remove_def)
next
  case (Some i)
  from remove_scan_Some[OF Some] have i: "i < length (subscriptions (emitters w e))"
    and tg: "target (subscriptions (emitters w e) ! i) = tg" by auto
  have "tg \<notin> target ` set (subscriptions (emitters (remove e tg w) e))"
    using splice1_targets[OF i assms] tg Some by (simp add: remove_def)
  then show ?thesis by (rule remove_absent)
qed

lemma well_formed_distinct:
  "well_formed w \<Longrightarrow> distinct (map target (subscriptions (emitters w e)))"
  unfolding well_formed_def by (metis strict_sorted_iff sorted_wrt_iff_nth_less distinct_conv_nth less_irrefl_nat nat_neq_iff length_map)

text \<open>
  Claim C8. \<open>remove\<close> of a child that is not in the table raises nothing and leaves
  the world as it is. In a well-formed world (no target twice in a table) a second
  \<open>remove\<close> of the same child, and so a second \<open>unlink\<close>, changes nothing: it
  equals the single one.
\<close>

theorem remove_absent_noop:
  "(tg \<notin> target ` set (subscriptions (emitters w e)) \<longrightarrow> remove e tg w = w) \<and>
   (well_formed w \<longrightarrow>
      remove e tg (remove e tg w) = remove e tg w \<and>
      unlink e tg (unlink e tg w) = unlink e tg w)"
  using remove_absent[of tg w e] remove_twice[OF well_formed_distinct, of w e tg]
  by (simp add: unlink_def)

lemma subscribed_once:
  "snd (subscribe 0 fast (snd (create None initial))) =
     \<lparr>emitters = (\<lambda>e. \<lparr>opts = \<lparr>emitTimeout = None\<rparr>, subscriptions = []\<rparr>)
        (0 := \<lparr>opts = \<lparr>emitTimeout = None\<rparr>, subscriptions = [\<lparr>target = 1, listener = fast\<rparr>]\<rparr>,
         1 := \<lparr>opts = \<lparr>emitTimeout = None\<rparr>, subscriptions = []\<rparr>),
      fresh = 2, cells = (\<lambda>c. None), history = [Pushed 0 1]\<rparr>"
  by (simp add: subscribe_def create_def initial_def Let_def fun_upd_twist)

theorem remove_absent_noop_witness:
  "remove 0 7 (snd (subscribe 0 fast (snd (create None initial)))) =
     snd (subscribe 0 fast (snd (create None initial))) \<and>
   subscriptions (emitters (unlink 0 1 (snd (subscribe 0 fast (snd (create None initial))))) 0) = [] \<and>
   unlink 0 1 (unlink 0 1 (snd (subscribe 0 fast (snd (create None initial))))) =
     unlink 0 1 (snd (subscribe 0 fast (snd (create None initial))))"
proof -
  let ?w = "snd (subscribe 0 fast (snd (create None initial)))"
  have wf: "well_formed ?w"
    unfolding subscribed_once by (simp add: well_formed_def)
  have absent: "7 \<notin> target ` set (subscriptions (emitters ?w 0))"
    unfolding subscribed_once by simp
  have gone: "subscriptions (emitters (unlink 0 1 ?w) 0) = []"
    unfolding subscribed_once
    by (simp add: unlink_def remove_def remove_scan.simps[of 0] splice1_def)
  show ?thesis
    using remove_absent_noop[of 7 ?w 0] remove_absent_noop[of 1 ?w 0] wf absent gone by simp
qed

section \<open>Properties of the worlds the library reaches\<close>

subsection \<open>What each operation changes\<close>

lemma create_fields:
  "fst (create given w) = fresh w"
  "fresh (snd (create given w)) = Suc (fresh w)"
  "subscriptions (emitters (snd (create given w)) e) =
     (if e = fresh w then [] else subscriptions (emitters w e))"
  "history (snd (create given w)) = history w"
  "cells (snd (create given w)) = cells w"
  by (simp_all add: create_def Let_def)

lemma create_opts:
  "opts (emitters (snd (create given w)) e) =
     (if e = fresh w then (case given of None \<Rightarrow> \<lparr>emitTimeout = None\<rparr> | Some os \<Rightarrow> os)
      else opts (emitters w e))"
  by (simp add: create_def Let_def)

lemma subscribe_fields:
  "fst (subscribe e l w) = fresh w"
  "fresh (snd (subscribe e l w)) = Suc (fresh w)"
  "subscriptions (emitters (snd (subscribe e l w)) e') =
     (if e' = e then (if e = fresh w then [] else subscriptions (emitters w e)) @
                     [\<lparr>target = fresh w, listener = l\<rparr>]
      else if e' = fresh w then [] else subscriptions (emitters w e'))"
  "history (snd (subscribe e l w)) = history w @ [Pushed e (fresh w)]"
  "cells (snd (subscribe e l w)) = cells w"
  by (simp_all add: subscribe_def create_def Let_def)

lemma subscribe_opts:
  "opts (emitters (snd (subscribe e l w)) e') =
     (if e' = fresh w then \<lparr>emitTimeout = None\<rparr> else opts (emitters w e'))"
  by (simp add: subscribe_def create_def Let_def)

lemma remove_fields:
  "fresh (remove e tg w) = fresh w"
  "cells (remove e tg w) = cells w"
  "opts (emitters (remove e tg w) e') = opts (emitters w e')"
  "e' \<noteq> e \<Longrightarrow> subscriptions (emitters (remove e tg w) e') = subscriptions (emitters w e')"
  by (simp_all add: remove_def split: option.splits)

lemma remove_table:
  "subscriptions (emitters (remove e tg w) e) =
     (case remove_scan 0 tg (subscriptions (emitters w e)) of
        None \<Rightarrow> subscriptions (emitters w e)
      | Some k \<Rightarrow> splice1 k (subscriptions (emitters w e)))"
  by (simp add: remove_def split: option.splits)

lemma remove_history:
  "history (remove e tg w) =
     (case remove_scan 0 tg (subscriptions (emitters w e)) of
        None \<Rightarrow> history w
      | Some k \<Rightarrow> history w @ [Spliced e k])"
  by (simp add: remove_def split: option.splits)

lemma resolve_fields:
  "fresh (resolve c v w) = fresh w"
  "emitters (resolve c v w) = emitters w"
  "history (resolve c v w) = history w"
  by (simp_all add: resolve_def split: option.splits)

subsection \<open>Well-formed worlds\<close>

lemma well_formed_initial: "well_formed initial"
  by (simp add: well_formed_def initial_def)

lemma well_formed_create: "well_formed w \<Longrightarrow> well_formed (snd (create given w))"
  unfolding well_formed_def by (auto simp: create_fields less_Suc_eq)

lemma well_formed_subscribe: "well_formed w \<Longrightarrow> well_formed (snd (subscribe e l w))"
  unfolding well_formed_def
  by (auto simp: subscribe_fields sorted_wrt_append less_Suc_eq)

lemma sorted_wrt_splice: "sorted_wrt P xs \<Longrightarrow> sorted_wrt P (splice1 k xs)"
proof -
  assume s: "sorted_wrt P xs"
  have "xs = take k xs @ drop k xs" by simp
  then have a: "sorted_wrt P (take k xs @ drop k xs)" using s by simp
  have sub: "set (drop (Suc k) xs) \<subseteq> set (drop k xs)" by (rule set_drop_subset_set_drop) simp
  have "sorted_wrt P (drop (Suc k) xs)" using s by (rule sorted_wrt_drop)
  with a sub show ?thesis
    unfolding splice1_def sorted_wrt_append by (auto simp: sorted_wrt_take[OF s])
qed

lemma set_splice: "set (splice1 k xs) \<subseteq> set xs"
  unfolding splice1_def by (auto dest: in_set_takeD in_set_dropD)

lemma well_formed_remove: "well_formed w \<Longrightarrow> well_formed (remove e tg w)"
proof -
  assume wf: "well_formed w"
  show ?thesis
    unfolding well_formed_def
  proof (intro allI conjI ballI)
    fix e'
    show "sorted_wrt (<) (map target (subscriptions (emitters (remove e tg w) e')))"
    proof (cases "e' = e")
      case False
      then show ?thesis using wf by (simp add: remove_fields well_formed_def)
    next
      case True
      have "sorted_wrt (\<lambda>a b. target a < target b) (subscriptions (emitters w e))"
        using wf by (simp add: well_formed_def sorted_wrt_map)
      then show ?thesis
        using True by (simp add: remove_table sorted_wrt_map sorted_wrt_splice split: option.splits)
    qed
  next
    fix e' s assume "s \<in> set (subscriptions (emitters (remove e tg w) e'))"
    then have "s \<in> set (subscriptions (emitters w e'))"
      using subsetD[OF set_splice]
      by (cases "e' = e") (auto simp: remove_fields remove_table split: option.splits)
    then show "target s < fresh (remove e tg w)"
      using wf by (simp add: remove_fields well_formed_def)
  qed
qed

lemma well_formed_resolve: "well_formed w \<Longrightarrow> well_formed (resolve c v w)"
  by (simp add: well_formed_def resolve_fields)

lemma well_formed_history: "well_formed (w\<lparr>history := h\<rparr>) = well_formed w"
  by (simp add: well_formed_def)

lemma well_formed_run_script: "well_formed w \<Longrightarrow> well_formed (snd (run_script s w))"
proof (induction s arbitrary: w)
  case (Done r) then show ?case by simp
next
  case (Subscribe e l k)
  have "well_formed (snd (subscribe e l w))" using Subscribe.prems by (rule well_formed_subscribe)
  then show ?case using Subscribe.IH by (simp add: split_beta)
next
  case (Remove e tg k)
  then show ?case by (simp add: well_formed_remove)
next
  case (Resolve c v k)
  then show ?case by (simp add: well_formed_resolve)
qed

lemma well_formed_emit_loop:
  "well_formed w \<Longrightarrow> emit_loop n e t k results w = Some (r, w1) \<Longrightarrow> well_formed w1"
proof (induction n arbitrary: k results w)
  case 0 then show ?case by simp
next
  case (Suc n)
  let ?subs = "subscriptions (emitters w e)"
  show ?case
  proof (cases "k < length ?subs")
    case False
    with Suc.prems show ?thesis by simp
  next
    case True
    let ?w0 = "w\<lparr>history := history w @ [Invoked e k (target (?subs ! k)) t]\<rparr>"
    obtain out w2 where run: "run_script (snd (listener (?subs ! k)) t) ?w0 = (out, w2)"
      by (cases "run_script (snd (listener (?subs ! k)) t) ?w0")
    have wf2: "well_formed w2"
      using well_formed_run_script[of ?w0 "snd (listener (?subs ! k)) t"] Suc.prems(1) run
      by (simp add: well_formed_history)
    show ?thesis
    proof (cases out)
      case (Throw err)
      with Suc.prems True run wf2 show ?thesis by (simp add: Let_def)
    next
      case (Return x)
      with Suc.prems(2) True run obtain k1 where
        "emit_loop n e t k1 (results @ [(?subs ! k, x)]) w2 = Some (r, w1)"
        by (simp add: Let_def)
      with Suc.IH wf2 show ?thesis by blast
    qed
  qed
qed

lemma emit_world:
  "emit n e t now w = Some (r, w1) \<Longrightarrow> \<exists>r1. emit_loop n e t 0 [] w = Some (r1, w1)"
  by (cases n) (auto split: option.splits sum.splits prod.splits)

lemma well_formed_emit: "well_formed w \<Longrightarrow> emit n e t now w = Some (r, w1) \<Longrightarrow> well_formed w1"
  using emit_world well_formed_emit_loop by blast

lemma well_formed_next: "well_formed w \<Longrightarrow> well_formed (snd (next e predicate w))"
proof -
  assume wf: "well_formed w"
  have "well_formed (w\<lparr>cells := (cells w)(fresh w := None), fresh := Suc (fresh w)\<rparr>)"
    using wf unfolding well_formed_def by (auto simp: less_Suc_eq)
  then show ?thesis
    using well_formed_subscribe by (simp add: next_def Let_def split_beta)
qed

lemma reachable_well_formed: "reachable w \<Longrightarrow> well_formed w"
  by (induction rule: reachable.induct)
     (auto intro: well_formed_initial well_formed_create well_formed_subscribe well_formed_remove
        well_formed_run_script well_formed_next well_formed_emit)

lemma untimed_initial: "untimed_children initial"
  by (simp add: untimed_children_def initial_def)

lemma untimed_create:
  "well_formed w \<Longrightarrow> untimed_children w \<Longrightarrow> untimed_children (snd (create given w))"
proof -
  assume wf: "well_formed w" and u: "untimed_children w"
  have ne: "target s \<noteq> fresh w" if "s \<in> set (subscriptions (emitters w e))" for s e
    using wf that unfolding well_formed_def by fastforce
  show ?thesis
    unfolding untimed_children_def
  proof (intro allI ballI)
    fix e s assume "s \<in> set (subscriptions (emitters (snd (create given w)) e))"
    then have m: "s \<in> set (subscriptions (emitters w e))"
      by (simp add: create_fields split: if_splits)
    with u ne[OF m] show "emitTimeout (opts (emitters (snd (create given w)) (target s))) = None"
      by (simp add: create_opts untimed_children_def)
  qed
qed

lemma untimed_subscribe:
  "well_formed w \<Longrightarrow> untimed_children w \<Longrightarrow> untimed_children (snd (subscribe e l w))"
proof -
  assume wf: "well_formed w" and u: "untimed_children w"
  show ?thesis
    unfolding untimed_children_def
  proof (intro allI ballI)
    fix e' s assume "s \<in> set (subscriptions (emitters (snd (subscribe e l w)) e'))"
    then have "target s = fresh w \<or> (\<exists>e''. s \<in> set (subscriptions (emitters w e'')))"
      by (auto simp: subscribe_fields split: if_splits)
    with u show "emitTimeout (opts (emitters (snd (subscribe e l w)) (target s))) = None"
      by (auto simp: subscribe_opts untimed_children_def)
  qed
qed

lemma untimed_remove: "untimed_children w \<Longrightarrow> untimed_children (remove e tg w)"
proof -
  assume u: "untimed_children w"
  have "s \<in> set (subscriptions (emitters w e'))"
    if "s \<in> set (subscriptions (emitters (remove e tg w) e'))" for s e'
    using that subsetD[OF set_splice]
    by (cases "e' = e") (auto simp: remove_fields remove_table split: option.splits)
  then show ?thesis using u unfolding untimed_children_def by (auto simp: remove_fields)
qed

lemma untimed_resolve: "untimed_children w \<Longrightarrow> untimed_children (resolve c v w)"
  by (simp add: untimed_children_def resolve_fields)

lemma untimed_history: "untimed_children (w\<lparr>history := h\<rparr>) = untimed_children w"
  by (simp add: untimed_children_def)

lemma untimed_run_script:
  "well_formed w \<Longrightarrow> untimed_children w \<Longrightarrow> untimed_children (snd (run_script s w))"
proof (induction s arbitrary: w)
  case (Done r) then show ?case by simp
next
  case (Subscribe e l k)
  have "well_formed (snd (subscribe e l w))" "untimed_children (snd (subscribe e l w))"
    using Subscribe.prems by (simp_all add: well_formed_subscribe untimed_subscribe)
  then show ?case using Subscribe.IH by (simp add: split_beta)
next
  case (Remove e tg k)
  then show ?case by (simp add: well_formed_remove untimed_remove)
next
  case (Resolve c v k)
  then show ?case by (simp add: well_formed_resolve untimed_resolve)
qed

lemma untimed_emit_loop:
  "well_formed w \<Longrightarrow> untimed_children w \<Longrightarrow> emit_loop n e t k results w = Some (r, w1) \<Longrightarrow>
   untimed_children w1"
proof (induction n arbitrary: k results w)
  case 0 then show ?case by simp
next
  case (Suc n)
  let ?subs = "subscriptions (emitters w e)"
  show ?case
  proof (cases "k < length ?subs")
    case False
    with Suc.prems show ?thesis by simp
  next
    case True
    let ?w0 = "w\<lparr>history := history w @ [Invoked e k (target (?subs ! k)) t]\<rparr>"
    obtain out w2 where run: "run_script (snd (listener (?subs ! k)) t) ?w0 = (out, w2)"
      by (cases "run_script (snd (listener (?subs ! k)) t) ?w0")
    have wf2: "well_formed w2"
      using well_formed_run_script[of ?w0 "snd (listener (?subs ! k)) t"] Suc.prems(1) run
      by (simp add: well_formed_history)
    have un2: "untimed_children w2"
      using untimed_run_script[of ?w0 "snd (listener (?subs ! k)) t"] Suc.prems(1,2) run
      by (simp add: well_formed_history untimed_history)
    show ?thesis
    proof (cases out)
      case (Throw err)
      with Suc.prems True run un2 show ?thesis by (simp add: Let_def)
    next
      case (Return x)
      with Suc.prems(3) True run obtain k1 where
        "emit_loop n e t k1 (results @ [(?subs ! k, x)]) w2 = Some (r, w1)"
        by (simp add: Let_def)
      with Suc.IH wf2 un2 show ?thesis by blast
    qed
  qed
qed

lemma untimed_next:
  "well_formed w \<Longrightarrow> untimed_children w \<Longrightarrow> untimed_children (snd (next e predicate w))"
proof -
  assume wf: "well_formed w" and u: "untimed_children w"
  let ?w1 = "w\<lparr>cells := (cells w)(fresh w := None), fresh := Suc (fresh w)\<rparr>"
  have "well_formed ?w1" using wf unfolding well_formed_def by (auto simp: less_Suc_eq)
  moreover have "untimed_children ?w1" using u by (simp add: untimed_children_def)
  ultimately show ?thesis
    using untimed_subscribe by (simp add: next_def Let_def split_beta)
qed

lemma reachable_untimed: "reachable w \<Longrightarrow> untimed_children w"
proof (induction rule: reachable.induct)
  case initial
  show ?case by (rule untimed_initial)
next
  case (create w given)
  then show ?case by (simp add: untimed_create reachable_well_formed)
next
  case (subscribe w e l)
  then show ?case by (simp add: untimed_subscribe reachable_well_formed)
next
  case (remove w e tg)
  then show ?case by (simp add: untimed_remove)
next
  case (script w s)
  then show ?case by (simp add: untimed_run_script reachable_well_formed)
next
  case (next_event w e predicate)
  then show ?case by (simp add: untimed_next reachable_well_formed)
next
  case (emit w n e t now r w1)
  then show ?case using emit_world untimed_emit_loop reachable_well_formed by blast
qed

lemma entry_promise_untimed:
  "emitTimeout os = None \<Longrightarrow>
   entry_promise emit_of w now os collected (s, x) =
     forward (emit_of (target s)) w now x"
  by (simp add: entry_promise_def split: option.splits)

text \<open>
  Claim C9. The emitter that \<open>subscribe\<close> creates for the new entry has no
  \<open>emitTimeout\<close>, whatever the options of the parent. In every world reached through the
  library, the child emitter of every entry has none, so what an emission on a child
  contributes per entry is the bare forwarding chain, with no race: a race is applied
  only by an emitter created with \<open>emitTimeout\<close>, on its own entries.
\<close>

theorem child_emitter_untimed:
  "emitTimeout (opts (emitters (snd (subscribe e l w)) (fst (subscribe e l w)))) = None \<and>
   (reachable w \<longrightarrow>
      (\<forall>parent. \<forall>s\<in>set (subscriptions (emitters w parent)).
         emitTimeout (opts (emitters w (target s))) = None \<and>
         (\<forall>emit_of w1 now collected entry.
            entry_promise emit_of w1 now (opts (emitters w (target s))) collected entry =
              forward (emit_of (target (fst entry))) w1 now (snd entry))))"
proof (intro conjI impI allI ballI)
  show "emitTimeout (opts (emitters (snd (subscribe e l w)) (fst (subscribe e l w)))) = None"
    by (simp add: subscribe_fields subscribe_opts)
next
  fix parent s
  assume "reachable w" "s \<in> set (subscriptions (emitters w parent))"
  then show none: "emitTimeout (opts (emitters w (target s))) = None"
    using reachable_untimed unfolding untimed_children_def by blast
  fix emit_of w1 now collected entry
  show "entry_promise emit_of w1 now (opts (emitters w (target s))) collected entry =
          forward (emit_of (target (fst entry))) w1 now (snd entry)"
    using entry_promise_untimed[OF none, of emit_of w1 now collected "fst entry" "snd entry"]
    by simp
qed

theorem child_emitter_untimed_witness:
  "emitTimeout (opts (emitters (snd (subscribe 0 slow
      (snd (create (Some \<lparr>emitTimeout = Some 10\<rparr>) initial)))) 0)) = Some 10 \<and>
   map target (subscriptions (emitters (snd (subscribe 0 slow
      (snd (create (Some \<lparr>emitTimeout = Some 10\<rparr>) initial)))) 0)) = [1] \<and>
   emitTimeout (opts (emitters (snd (subscribe 0 slow
      (snd (create (Some \<lparr>emitTimeout = Some 10\<rparr>) initial)))) 1)) = None"
proof -
  let ?w = "snd (subscribe 0 slow (snd (create (Some \<lparr>emitTimeout = Some 10\<rparr>) initial)))"
  have r: "reachable ?w"
    by (intro reachable.subscribe reachable.create reachable.initial)
  have t: "subscriptions (emitters ?w 0) = [\<lparr>target = 1, listener = slow\<rparr>]"
    by (simp add: subscribe_fields create_fields initial_def)
  have o: "emitTimeout (opts (emitters ?w 0)) = Some 10"
    by (simp add: subscribe_opts create_opts create_fields initial_def)
  have "\<forall>s\<in>set (subscriptions (emitters ?w 0)). emitTimeout (opts (emitters ?w (target s))) = None"
    using child_emitter_untimed[of 0 slow ?w] r by blast
  then have "emitTimeout (opts (emitters ?w 1)) = None" unfolding t by simp
  with t o show ?thesis by simp
qed

section \<open>Properties of emit: the synchronous part\<close>

lemma emit_loop_raise_source:
  "emit_loop n e t k results w = Some (Inl err, w1) \<Longrightarrow>
   \<exists>j w0. j < length (subscriptions (emitters w0 e)) \<and>
     run_script (snd (listener (subscriptions (emitters w0 e) ! j)) t)
       (w0\<lparr>history := history w0 @ [Invoked e j (target (subscriptions (emitters w0 e) ! j)) t]\<rparr>) =
     (Throw err, w1)"
proof (induction n arbitrary: k results w)
  case 0 then show ?case by simp
next
  case (Suc n)
  let ?subs = "subscriptions (emitters w e)"
  show ?case
  proof (cases "k < length ?subs")
    case False
    with Suc.prems show ?thesis by simp
  next
    case True
    let ?w0 = "w\<lparr>history := history w @ [Invoked e k (target (?subs ! k)) t]\<rparr>"
    obtain out w2 where run: "run_script (snd (listener (?subs ! k)) t) ?w0 = (out, w2)"
      by (cases "run_script (snd (listener (?subs ! k)) t) ?w0")
    show ?thesis
    proof (cases out)
      case (Throw err')
      with Suc.prems True run have "err' = err" "w2 = w1" by (simp_all add: Let_def)
      with True run Throw show ?thesis by blast
    next
      case (Return x)
      with Suc.prems True run obtain k1 where
        "emit_loop n e t k1 (results @ [(?subs ! k, x)]) w2 = Some (Inl err, w1)"
        by (simp add: Let_def)
      with Suc.IH show ?thesis by blast
    qed
  qed
qed

text \<open>
  Claim C2, as the code has it. When \<open>emit\<close> calls a listener and the listener throws,
  the loop is left at once with that error, in the world the throw left (no later entry
  is called), and \<open>emit\<close> raises the error to its caller instead of returning a pending
  operation; \<open>emit\<close> raises nothing but such a throw. Where \<open>emit\<close> is the callback of
  \<open>then\<close> (the emission on a child emitter), the raise is the failure of the promise
  that \<open>then\<close> returned, the contribution of the parent's entry.
\<close>

theorem listener_throw_raises:
  "(k < length (subscriptions (emitters w e)) \<and>
    run_script (snd (listener (subscriptions (emitters w e) ! k)) t)
      (w\<lparr>history := history w @ [Invoked e k (target (subscriptions (emitters w e) ! k)) t]\<rparr>) =
      (Throw err, w1) \<longrightarrow>
    emit_loop (Suc n) e t k results w = Some (Inl err, w1)) \<and>
   (emit_loop (Suc n) e t 0 [] w = Some (Inl err, w1) \<longrightarrow>
    emit (Suc n) e t now w = Some (Inl err, w1)) \<and>
   (emit n e t now w = Some (Inl err, w1) \<longrightarrow>
    (\<exists>j w0. j < length (subscriptions (emitters w0 e)) \<and>
       run_script (snd (listener (subscriptions (emitters w0 e) ! j)) t)
         (w0\<lparr>history := history w0 @ [Invoked e j (target (subscriptions (emitters w0 e) ! j)) t]\<rparr>) =
       (Throw err, w1))) \<and>
   (emit n e t now w = Some (Inl err, w1) \<longrightarrow>
    then_emit (emit n e) w (Fulfilled now t) = Some (Rejected now err))"
proof (intro conjI impI)
  assume "k < length (subscriptions (emitters w e)) \<and>
    run_script (snd (listener (subscriptions (emitters w e) ! k)) t)
      (w\<lparr>history := history w @ [Invoked e k (target (subscriptions (emitters w e) ! k)) t]\<rparr>) =
      (Throw err, w1)"
  then show "emit_loop (Suc n) e t k results w = Some (Inl err, w1)"
    by (simp add: Let_def)
next
  assume "emit_loop (Suc n) e t 0 [] w = Some (Inl err, w1)"
  then show "emit (Suc n) e t now w = Some (Inl err, w1)" by simp
next
  assume a: "emit n e t now w = Some (Inl err, w1)"
  then have "emit_loop n e t 0 [] w = Some (Inl err, w1)"
    by (cases n) (auto split: option.splits sum.splits prod.splits)
  then show "\<exists>j w0. j < length (subscriptions (emitters w0 e)) \<and>
       run_script (snd (listener (subscriptions (emitters w0 e) ! j)) t)
         (w0\<lparr>history := history w0 @ [Invoked e j (target (subscriptions (emitters w0 e) ! j)) t]\<rparr>) =
       (Throw err, w1)"
    by (rule emit_loop_raise_source)
next
  assume "emit n e t now w = Some (Inl err, w1)"
  then show "then_emit (emit n e) w (Fulfilled now t) = Some (Rejected now err)"
    by (simp add: then_emit_def)
qed

lemma throwing_world_fields:
  "subscriptions (emitters throwing_world e) =
     (if e = 0 then [\<lparr>target = 1, listener = thrower\<rparr>, \<lparr>target = 2, listener = fast\<rparr>] else [])"
  "opts (emitters throwing_world e) = \<lparr>emitTimeout = None\<rparr>"
  "history throwing_world = [Pushed 0 1, Pushed 0 2]"
  by (simp_all add: throwing_world_def subscribe_fields subscribe_opts create_fields create_opts
      initial_def)

text \<open>
  Claim C2, as stated, fails: \<open>emit\<close> on an emitter whose first listener throws returns
  no pending operation, it raises; the second listener is not called.
\<close>

theorem emit_raises_synchronously:
  "map_option fst (emit 3 0 (Num 0) 0 throwing_world) = Some (Inl (Failure ''boom'')) \<and>
   map_option (history \<circ> snd) (emit 3 0 (Num 0) 0 throwing_world) =
     Some [Pushed 0 1, Pushed 0 2, Invoked 0 0 1 (Num 0)]"
  by (simp add: throwing_world_fields numeral_3_eq_3 thrower_def Let_def)

theorem listener_throw_raises_witness:
  "emit (Suc 0) 0 (Num 7) 5 throwing_world =
     Some (Inl (Failure ''boom''),
           throwing_world\<lparr>history := [Pushed 0 1, Pushed 0 2, Invoked 0 0 1 (Num 7)]\<rparr>) \<and>
   then_emit (emit (Suc 0) 0) throwing_world (Fulfilled 5 (Num 7)) =
     Some (Rejected 5 (Failure ''boom''))"
proof -
  let ?w1 = "throwing_world\<lparr>history := [Pushed 0 1, Pushed 0 2, Invoked 0 0 1 (Num 7)]\<rparr>"
  have run: "0 < length (subscriptions (emitters throwing_world 0)) \<and>
    run_script (snd (listener (subscriptions (emitters throwing_world 0) ! 0)) (Num 7))
      (throwing_world\<lparr>history := history throwing_world @
         [Invoked 0 0 (target (subscriptions (emitters throwing_world 0) ! 0)) (Num 7)]\<rparr>) =
      (Throw (Failure ''boom''), ?w1)"
    by (simp add: throwing_world_fields thrower_def)
  have loop: "emit_loop (Suc 0) 0 (Num 7) 0 [] throwing_world = Some (Inl (Failure ''boom''), ?w1)"
    using listener_throw_raises[of 0 throwing_world 0 "Num 7" "Failure ''boom''" ?w1 0 "[]"] run
    by blast
  have raise: "emit (Suc 0) 0 (Num 7) 5 throwing_world = Some (Inl (Failure ''boom''), ?w1)"
    using listener_throw_raises[of 0 throwing_world 0 "Num 7" "Failure ''boom''" ?w1 0 "[]" 5] loop
    by blast
  have "then_emit (emit (Suc 0) 0) throwing_world (Fulfilled 5 (Num 7)) =
          Some (Rejected 5 (Failure ''boom''))"
    using listener_throw_raises[of 0 throwing_world 0 "Num 7" "Failure ''boom''" ?w1 "Suc 0" "[]" 5]
      raise by blast
  with raise show ?thesis by simp
qed

section \<open>Properties of emit: the walk over the table\<close>

subsection \<open>Histories only grow\<close>

lemma extends_refl: "extends w w"
  by (simp add: extends_def)

lemma extends_trans: "extends w w1 \<Longrightarrow> extends w1 w2 \<Longrightarrow> extends w w2"
  by (auto simp: extends_def)

lemma since_self: "since w w = []"
  by (simp add: since_def)

lemma since_append: "history w1 = history w @ evs \<Longrightarrow> since w w1 = evs"
  by (simp add: since_def)

lemma since_trans:
  "extends w w1 \<Longrightarrow> extends w1 w2 \<Longrightarrow> since w w2 = since w w1 @ since w1 w2"
  by (auto simp: extends_def since_def)

lemma extends_subscribe: "extends w (snd (subscribe e l w))"
  by (simp add: extends_def subscribe_fields)

lemma since_subscribe: "since w (snd (subscribe e l w)) = [Pushed e (fresh w)]"
  by (simp add: since_append subscribe_fields)

lemma extends_remove: "extends w (remove e tg w)"
  by (simp add: extends_def remove_history split: option.splits)

lemma since_remove:
  "since w (remove e tg w) =
     (case remove_scan 0 tg (subscriptions (emitters w e)) of None \<Rightarrow> [] | Some i \<Rightarrow> [Spliced e i])"
  by (simp add: since_def remove_history split: option.splits)

lemma extends_resolve: "extends w (resolve c v w)"
  by (simp add: extends_def resolve_fields)

lemma since_resolve: "since w (resolve c v w) = []"
  by (simp add: since_def resolve_fields)

lemma extends_run_script: "extends w (snd (run_script s w))"
proof (induction s arbitrary: w)
  case (Done r) then show ?case by (simp add: extends_refl)
next
  case (Subscribe e l k)
  show ?case
    using extends_trans[OF extends_subscribe Subscribe.IH(2)[OF rangeI]] by (simp add: split_beta)
next
  case (Remove e tg k)
  show ?case using extends_trans[OF extends_remove Remove.IH] by simp
next
  case (Resolve c v k)
  show ?case using extends_trans[OF extends_resolve Resolve.IH] by simp
qed

lemma run_script_no_call: "\<forall>ev\<in>set (since w (snd (run_script s w))). \<not> is_call ev"
proof (induction s arbitrary: w)
  case (Done r) then show ?case by (simp add: since_self)
next
  case (Subscribe e l k)
  let ?w1 = "snd (subscribe e l w)"
  let ?w2 = "snd (run_script (k (fst (subscribe e l w))) ?w1)"
  have "since w ?w2 = since w ?w1 @ since ?w1 ?w2"
    by (rule since_trans[OF extends_subscribe extends_run_script])
  then show ?case using Subscribe.IH(2)[OF rangeI, of ?w1 "fst (subscribe e l w)"]
    by (simp add: split_beta since_subscribe)
next
  case (Remove e tg k)
  let ?w1 = "remove e tg w"
  have "since w (snd (run_script k ?w1)) = since w ?w1 @ since ?w1 (snd (run_script k ?w1))"
    by (rule since_trans[OF extends_remove extends_run_script])
  then show ?case using Remove.IH[of ?w1] by (simp add: since_remove split: option.splits)
next
  case (Resolve c v k)
  let ?w1 = "resolve c v w"
  have "since w (snd (run_script k ?w1)) = since w ?w1 @ since ?w1 (snd (run_script k ?w1))"
    by (rule since_trans[OF extends_resolve extends_run_script])
  then show ?case using Resolve.IH[of ?w1] by (simp add: since_resolve)
qed

subsection \<open>Lists with one element taken out\<close>

lemma map_splice1: "map f (splice1 i xs) = splice1 i (map f xs)"
  by (simp add: splice1_def take_map drop_map)

lemma take_splice1: "k \<le> i \<Longrightarrow> take k (splice1 i xs) = take k xs"
  by (simp add: splice1_def min_def)

lemma length_splice1: "i < length xs \<Longrightarrow> length (splice1 i xs) = length xs - 1"
  by (simp add: splice1_def)

lemma set_drop_splice1: "k \<le> i \<Longrightarrow> set (drop k (splice1 i xs)) \<subseteq> set (drop k xs)"
proof -
  assume ki: "k \<le> i"
  have a: "set (drop k (take i xs)) \<subseteq> set (drop k xs)"
    by (metis drop_take set_take_subset)
  have b: "set (drop (Suc i) xs) \<subseteq> set (drop k xs)"
    using ki by (intro set_drop_subset_set_drop) simp
  have c: "set (drop j (drop (Suc i) xs)) \<subseteq> set (drop (Suc i) xs)" for j
    by (rule set_drop_subset)
  show ?thesis
    unfolding splice1_def using a b c by (auto simp del: drop_drop)
qed

subsection \<open>Tables during a call of a listener\<close>

lemma targets_history [simp]: "targets e (w\<lparr>history := h\<rparr>) = targets e w"
  by (simp add: targets_def)

lemma targets_subscribe:
  "e < fresh w \<Longrightarrow>
   targets e (snd (subscribe e' l w)) = (if e' = e then targets e w @ [fresh w] else targets e w)"
  by (simp add: targets_def subscribe_fields)

lemma targets_remove:
  "targets e (remove e' tg w) =
     (if e' = e then
        (case remove_scan 0 tg (subscriptions (emitters w e)) of
           None \<Rightarrow> targets e w | Some i \<Rightarrow> splice1 i (targets e w))
      else targets e w)"
  by (simp add: targets_def remove_fields remove_table map_splice1 split: option.splits)

lemma targets_resolve: "targets e (resolve c v w) = targets e w"
  by (simp add: targets_def resolve_fields)

lemma run_script_fresh: "fresh w \<le> fresh (snd (run_script s w))"
proof (induction s arbitrary: w)
  case (Done r) then show ?case by simp
next
  case (Subscribe e l k)
  have "Suc (fresh w) \<le> fresh (snd (run_script (k (fst (subscribe e l w))) (snd (subscribe e l w))))"
    using Subscribe.IH(2)[OF rangeI, of "snd (subscribe e l w)" "fst (subscribe e l w)"]
    by (simp add: subscribe_fields)
  then show ?case by (simp add: split_beta)
next
  case (Remove e tg k)
  show ?case using Remove.IH[of "remove e tg w"] by (simp add: remove_fields)
next
  case (Resolve c v k)
  show ?case using Resolve.IH[of "resolve c v w"] by (simp add: resolve_fields)
qed

lemma run_script_keeps_prefix:
  assumes "e < fresh w" "c < fresh w" "k \<le> length (targets e w)"
    and "\<forall>y\<in>set (drop k (targets e w)). c \<le> y"
    and "\<forall>i. Spliced e i \<in> set (since w (snd (run_script s w))) \<longrightarrow> k \<le> i"
  shows "k \<le> length (targets e (snd (run_script s w))) \<and>
         take k (targets e (snd (run_script s w))) = take k (targets e w) \<and>
         (\<forall>y\<in>set (drop k (targets e (snd (run_script s w)))). c \<le> y)"
  using assms
proof (induction s arbitrary: w)
  case (Done r)
  then show ?case by simp
next
  case (Subscribe e' l f)
  let ?w1 = "snd (subscribe e' l w)"
  let ?x = "fst (subscribe e' l w)"
  let ?w2 = "snd (run_script (f ?x) ?w1)"
  have s: "since w ?w2 = since w ?w1 @ since ?w1 ?w2"
    by (rule since_trans[OF extends_subscribe extends_run_script])
  have run: "snd (run_script (Subscribe e' l f) w) = ?w2" by (simp add: split_beta)
  have 1: "e < fresh ?w1" "c < fresh ?w1" using Subscribe.prems by (simp_all add: subscribe_fields)
  have 2: "k \<le> length (targets e ?w1)"
    using Subscribe.prems by (simp add: targets_subscribe)
  have 3: "\<forall>y\<in>set (drop k (targets e ?w1)). c \<le> y"
    using Subscribe.prems by (auto simp: targets_subscribe)
  have 4: "\<forall>i. Spliced e i \<in> set (since ?w1 ?w2) \<longrightarrow> k \<le> i"
    using Subscribe.prems(5) unfolding run s by simp
  have 5: "take k (targets e ?w1) = take k (targets e w)"
    using Subscribe.prems by (simp add: targets_subscribe)
  from Subscribe.IH(2)[OF rangeI 1 2 3 4] 5 show ?case unfolding run by simp
next
  case (Remove e' tg s)
  let ?w1 = "remove e' tg w"
  let ?w2 = "snd (run_script s ?w1)"
  have s: "since w ?w2 = since w ?w1 @ since ?w1 ?w2"
    by (rule since_trans[OF extends_remove extends_run_script])
  have run: "snd (run_script (Remove e' tg s) w) = ?w2" by simp
  have 1: "e < fresh ?w1" "c < fresh ?w1" using Remove.prems by (simp_all add: remove_fields)
  have 4: "\<forall>i. Spliced e i \<in> set (since ?w1 ?w2) \<longrightarrow> k \<le> i"
    using Remove.prems(5) unfolding run s by simp
  have found: "k \<le> i \<and> i < length (targets e w)"
    if "e' = e" "remove_scan 0 tg (subscriptions (emitters w e)) = Some i" for i
  proof -
    have "Spliced e i \<in> set (since w ?w2)" unfolding s using that by (simp add: since_remove)
    then have "k \<le> i" using Remove.prems(5) unfolding run by blast
    moreover have "i < length (targets e w)"
      using remove_scan_Some[OF that(2)] by (simp add: targets_def)
    ultimately show ?thesis by simp
  qed
  have 2: "k \<le> length (targets e ?w1)"
    using Remove.prems(3) found by (auto simp: targets_remove length_splice1 split: option.splits)
  have 5: "take k (targets e ?w1) = take k (targets e w)"
    using found by (auto simp: targets_remove take_splice1 split: option.splits)
  have 3: "\<forall>y\<in>set (drop k (targets e ?w1)). c \<le> y"
  proof
    fix y assume y: "y \<in> set (drop k (targets e ?w1))"
    have "y \<in> set (drop k (targets e w))"
    proof (cases "e' = e")
      case False
      with y show ?thesis by (simp add: targets_remove)
    next
      case True
      show ?thesis
      proof (cases "remove_scan 0 tg (subscriptions (emitters w e))")
        case None
        with y True show ?thesis by (simp add: targets_remove)
      next
        case (Some i)
        with y True have y': "y \<in> set (drop k (splice1 i (targets e w)))"
          by (simp add: targets_remove)
        have ki: "k \<le> i" using found[OF True Some] by simp
        show ?thesis by (rule subsetD[OF set_drop_splice1[OF ki] y'])
      qed
    qed
    with Remove.prems(4) show "c \<le> y" by blast
  qed
  from Remove.IH[OF 1 2 3 4] 5 show ?case unfolding run by simp
next
  case (Resolve cell v s)
  let ?w1 = "resolve cell v w"
  let ?w2 = "snd (run_script s ?w1)"
  have s: "since w ?w2 = since w ?w1 @ since ?w1 ?w2"
    by (rule since_trans[OF extends_resolve extends_run_script])
  have run: "snd (run_script (Resolve cell v s) w) = ?w2" by simp
  have 1: "e < fresh ?w1" "c < fresh ?w1" using Resolve.prems by (simp_all add: resolve_fields)
  have 4: "\<forall>i. Spliced e i \<in> set (since ?w1 ?w2) \<longrightarrow> k \<le> i"
    using Resolve.prems(5) unfolding run s by simp
  from Resolve.IH[OF 1 _ _ 4] Resolve.prems(3,4) show ?case
    unfolding run by (simp add: targets_resolve)
qed

subsection \<open>The events of a walk\<close>

lemma removals_ok_no_call:
  "\<forall>ev\<in>set xs. \<not> is_call ev \<Longrightarrow>
   removals_ok e k (xs @ ys) = ((\<forall>i. Spliced e i \<in> set xs \<longrightarrow> k \<le> i) \<and> removals_ok e k ys)"
proof (induction xs)
  case Nil then show ?case by simp
next
  case (Cons ev xs)
  then show ?case by (cases ev) auto
qed

lemma calls_no_call: "\<forall>ev\<in>set xs. \<not> is_call ev \<Longrightarrow> calls e (xs @ ys) = calls e ys"
proof (induction xs)
  case Nil then show ?case by simp
next
  case (Cons ev xs)
  then show ?case by (cases ev) auto
qed

lemma emit_loop_unfold:
  assumes "k < length (subscriptions (emitters w e))"
    and "run_script (snd (listener (subscriptions (emitters w e) ! k)) t)
       (w\<lparr>history := history w @ [Invoked e k (target (subscriptions (emitters w e) ! k)) t]\<rparr>) =
     (out, w2)"
  shows "emit_loop (Suc n) e t k results w =
     (case out of
        Throw err \<Rightarrow> Some (Inl err, w2)
      | Return x \<Rightarrow>
          emit_loop n e t
            (if k < length (subscriptions (emitters w2 e)) \<and>
                target (subscriptions (emitters w2 e) ! k) = target (subscriptions (emitters w e) ! k)
             then Suc k else k)
            (results @ [(subscriptions (emitters w e) ! k, x)]) w2)"
  using assms by (simp add: Let_def split: outcome.splits)

lemma emit_loop_done:
  "\<not> k < length (subscriptions (emitters w e)) \<Longrightarrow>
   emit_loop (Suc n) e t k results w = Some (Inr results, w)"
  by simp

lemma extends_emit_loop: "emit_loop n e t k results w = Some (r, w1) \<Longrightarrow> extends w w1"
proof (induction n arbitrary: k results w)
  case 0 then show ?case by simp
next
  case (Suc n)
  show ?case
  proof (cases "k < length (subscriptions (emitters w e))")
    case False
    with Suc.prems show ?thesis by (simp add: extends_refl)
  next
    case True
    let ?w0 = "w\<lparr>history := history w @ [Invoked e k (target (subscriptions (emitters w e) ! k)) t]\<rparr>"
    obtain out w2 where
      run: "run_script (snd (listener (subscriptions (emitters w e) ! k)) t) ?w0 = (out, w2)"
      by (meson surj_pair)
    note rest = Suc.prems[unfolded emit_loop_unfold[OF True run]]
    have a: "extends w ?w0" by (simp add: extends_def)
    have b: "extends ?w0 w2"
      using extends_run_script[of ?w0 "snd (listener (subscriptions (emitters w e) ! k)) t"] run
      by simp
    have c: "extends w2 w1"
    proof (cases out)
      case (Throw err)
      with rest show ?thesis by (simp add: extends_refl)
    next
      case (Return x)
      with rest show ?thesis by (auto intro: Suc.IH)
    qed
    from a b c show ?thesis by (blast intro: extends_trans)
  qed
qed

lemma emit_loop_fresh: "emit_loop n e t k results w = Some (r, w1) \<Longrightarrow> fresh w \<le> fresh w1"
proof (induction n arbitrary: k results w)
  case 0 then show ?case by simp
next
  case (Suc n)
  show ?case
  proof (cases "k < length (subscriptions (emitters w e))")
    case False
    with Suc.prems show ?thesis by simp
  next
    case True
    let ?w0 = "w\<lparr>history := history w @ [Invoked e k (target (subscriptions (emitters w e) ! k)) t]\<rparr>"
    obtain out w2 where
      run: "run_script (snd (listener (subscriptions (emitters w e) ! k)) t) ?w0 = (out, w2)"
      by (meson surj_pair)
    note rest = Suc.prems[unfolded emit_loop_unfold[OF True run]]
    have b: "fresh w \<le> fresh w2"
      using run_script_fresh[of ?w0 "snd (listener (subscriptions (emitters w e) ! k)) t"] run
      by simp
    have c: "fresh w2 \<le> fresh w1"
    proof (cases out)
      case (Throw err)
      with rest show ?thesis by simp
    next
      case (Return x)
      with rest show ?thesis by (auto intro: Suc.IH)
    qed
    from b c show ?thesis by simp
  qed
qed

lemma emit_loop_since:
  assumes "emit_loop (Suc n) e t k results w = Some (r, w1)"
    and "k < length (subscriptions (emitters w e))"
    and "run_script (snd (listener (subscriptions (emitters w e) ! k)) t)
       (w\<lparr>history := history w @ [Invoked e k (target (subscriptions (emitters w e) ! k)) t]\<rparr>) =
     (out, w2)"
  shows "since w w1 =
     Invoked e k (target (subscriptions (emitters w e) ! k)) t #
     since (w\<lparr>history := history w @ [Invoked e k (target (subscriptions (emitters w e) ! k)) t]\<rparr>) w2 @
     since w2 w1"
    and "extends w2 w1"
proof -
  let ?w0 = "w\<lparr>history := history w @ [Invoked e k (target (subscriptions (emitters w e) ! k)) t]\<rparr>"
  note rest = assms(1)[unfolded emit_loop_unfold[OF assms(2,3)]]
  have a: "extends w ?w0" by (simp add: extends_def)
  have sa: "since w ?w0 = [Invoked e k (target (subscriptions (emitters w e) ! k)) t]"
    by (simp add: since_def)
  have b: "extends ?w0 w2"
    using extends_run_script[of ?w0 "snd (listener (subscriptions (emitters w e) ! k)) t"] assms(3)
    by simp
  show c: "extends w2 w1"
  proof (cases out)
    case (Throw err)
    with rest show ?thesis by (simp add: extends_refl)
  next
    case (Return x)
    with rest show ?thesis by (auto intro: extends_emit_loop)
  qed
  have "since w w1 = since w ?w0 @ since ?w0 w1"
    by (rule since_trans[OF a extends_trans[OF b c]])
  also have "since ?w0 w1 = since ?w0 w2 @ since w2 w1" by (rule since_trans[OF b c])
  finally show "since w w1 =
     Invoked e k (target (subscriptions (emitters w e) ! k)) t # since ?w0 w2 @ since w2 w1"
    by (simp add: sa)
qed

lemma emit_loop_since_head:
  "emit_loop n e t k results w = Some (r, w1) \<Longrightarrow>
   since w w1 = [] \<or> (\<exists>c rest. since w w1 = Invoked e k c t # rest)"
proof (cases n)
  case 0
  assume "emit_loop n e t k results w = Some (r, w1)"
  with 0 show ?thesis by simp
next
  case (Suc m)
  assume a: "emit_loop n e t k results w = Some (r, w1)"
  show ?thesis
  proof (cases "k < length (subscriptions (emitters w e))")
    case False
    with a Suc show ?thesis by (simp add: since_self)
  next
    case True
    obtain out w2 where "run_script (snd (listener (subscriptions (emitters w e) ! k)) t)
       (w\<lparr>history := history w @ [Invoked e k (target (subscriptions (emitters w e) ! k)) t]\<rparr>) =
       (out, w2)"
      by (meson surj_pair)
    from emit_loop_since(1)[OF a[unfolded Suc] True this] show ?thesis by blast
  qed
qed

lemma removals_ok_head:
  "evs = [] \<or> (\<exists>c rest. evs = Invoked e k c t # rest) \<Longrightarrow>
   removals_ok e j evs = removals_ok e k evs"
  by auto

lemma nth_in_drop: "k < length xs \<Longrightarrow> xs ! k \<in> set (drop k xs)"
  by (simp add: Cons_nth_drop_Suc[symmetric])

lemma in_drop_nth: "y \<in> set (drop k xs) \<Longrightarrow> \<exists>j. y = xs ! (k + j) \<and> k + j < length xs"
proof -
  assume "y \<in> set (drop k xs)"
  then obtain j where "j < length (drop k xs)" "y = drop k xs ! j"
    unfolding in_set_conv_nth by blast
  then have "y = xs ! (k + j) \<and> k + j < length xs" by auto
  then show ?thesis by blast
qed

lemma sorted_drop_ge:
  assumes "sorted_wrt (<) (xs :: nat list)" and "y \<in> set (drop k xs)"
  shows "k < length xs \<and> xs ! k \<le> y"
proof -
  from in_drop_nth[OF assms(2)] obtain j where y: "y = xs ! (k + j)" "k + j < length xs" by blast
  show ?thesis
  proof (cases j)
    case 0
    with y show ?thesis by simp
  next
    case (Suc j')
    then have "k < k + j" by simp
    from sorted_wrt_nth_less[OF assms(1) this y(2)] y show ?thesis by simp
  qed
qed

lemma sorted_drop_gt:
  assumes "sorted_wrt (<) (xs :: nat list)" and "y \<in> set (drop (Suc k) xs)"
  shows "xs ! k < y"
proof -
  from in_drop_nth[OF assms(2)] obtain j where y: "y = xs ! (Suc k + j)" "Suc k + j < length xs"
    by blast
  have "k < Suc k + j" by simp
  from sorted_wrt_nth_less[OF assms(1) this y(2)] y show ?thesis by simp
qed

lemma emit_loop_walk:
  assumes "emit_loop n e t k results w = Some (r, w1)"
    and "well_formed w" "e < fresh w"
    and "removals_ok e k (since w w1)"
    and "set (take k (targets e w)) \<subseteq> set L"
    and "\<forall>x\<in>set L. \<forall>y\<in>set (drop k (targets e w)). x < y"
    and "sorted_wrt (<) L"
  shows "sorted_wrt (<) (L @ map fst (calls e (since w w1))) \<and>
         (\<forall>c\<in>set (calls e (since w w1)). snd c = t) \<and>
         ((\<exists>collected. r = Inr collected) \<longrightarrow>
            set (targets e w1) \<subseteq> set (L @ map fst (calls e (since w w1))))"
  using assms
proof (induction n arbitrary: k results w L)
  case 0 then show ?case by simp
next
  case (Suc n)
  let ?subs = "subscriptions (emitters w e)"
  show ?case
  proof (cases "k < length ?subs")
    case False
    with Suc.prems(1) have "w1 = w" "r = Inr results" by simp_all
    moreover have "take k (targets e w) = targets e w" using False by (simp add: targets_def)
    ultimately show ?thesis using Suc.prems(5,7) by (simp add: since_self)
  next
    case True
    let ?c = "target (?subs ! k)"
    let ?w0 = "w\<lparr>history := history w @ [Invoked e k ?c t]\<rparr>"
    let ?s = "snd (listener (?subs ! k)) t"
    obtain out w2 where run: "run_script ?s ?w0 = (out, w2)" by (meson surj_pair)
    note rest = Suc.prems(1)[unfolded emit_loop_unfold[OF True run]]
    have w2: "w2 = snd (run_script ?s ?w0)" using run by simp
    have sin: "since w w1 = Invoked e k ?c t # since ?w0 w2 @ since w2 w1"
      by (rule emit_loop_since(1)[OF Suc.prems(1) True run])
    have nocall: "\<forall>ev\<in>set (since ?w0 w2). \<not> is_call ev"
      unfolding w2 by (rule run_script_no_call)
    have ok: "(\<forall>i. Spliced e i \<in> set (since ?w0 w2) \<longrightarrow> k \<le> i)" "removals_ok e k (since w2 w1)"
      using Suc.prems(4) unfolding sin by (simp_all add: removals_ok_no_call[OF nocall])
    have cs: "calls e (since w w1) = (?c, t) # calls e (since w2 w1)"
      unfolding sin by (simp add: calls_no_call[OF nocall])
    have cT: "?c = targets e w ! k" "k < length (targets e w)"
      using True by (simp_all add: targets_def)
    have c_in: "?c \<in> set (drop k (targets e w))"
      unfolding cT(1) by (rule nth_in_drop[OF cT(2)])
    have "?subs ! k \<in> set ?subs" using True by simp
    then have c_lt: "?c < fresh w"
      using Suc.prems(2) unfolding well_formed_def by blast
    have L_lt: "\<forall>x\<in>set L. x < ?c" using Suc.prems(6) c_in by blast
    have sortedT: "sorted_wrt (<) (targets e w)"
      using Suc.prems(2) by (simp add: well_formed_def targets_def)
    have c_le: "\<forall>y\<in>set (drop k (targets e w)). ?c \<le> y"
      using sorted_drop_ge[OF sortedT] cT(1) by simp
    have p1: "e < fresh ?w0" using Suc.prems(3) by simp
    have p2: "?c < fresh ?w0" using c_lt by simp
    have p3: "k \<le> length (targets e ?w0)" using cT by simp
    have p4: "\<forall>y\<in>set (drop k (targets e ?w0)). ?c \<le> y" using c_le by simp
    have p5: "\<forall>i. Spliced e i \<in> set (since ?w0 (snd (run_script ?s ?w0))) \<longrightarrow> k \<le> i"
      using ok(1) by (simp add: w2[symmetric])
    have keep: "k \<le> length (targets e w2)" "take k (targets e w2) = take k (targets e w)"
                "\<forall>y\<in>set (drop k (targets e w2)). ?c \<le> y"
      using run_script_keeps_prefix[OF p1 p2 p3 p4 p5] by (simp_all add: w2[symmetric])
    have wf2: "well_formed w2"
      unfolding w2 using Suc.prems(2) by (intro well_formed_run_script) (simp add: well_formed_history)
    have fr2: "e < fresh w2"
      using run_script_fresh[of ?w0 ?s] Suc.prems(3) by (simp add: w2[symmetric])
    have sortedL': "sorted_wrt (<) (L @ [?c])"
      using Suc.prems(7) L_lt by (simp add: sorted_wrt_append)
    show ?thesis
    proof (cases out)
      case (Throw err)
      with rest have "w1 = w2" "r = Inl err" by simp_all
      then show ?thesis using cs sortedL' by (simp add: since_self)
    next
      case (Return x)
      let ?same = "k < length (subscriptions (emitters w2 e)) \<and>
                     target (subscriptions (emitters w2 e) ! k) = ?c"
      let ?k1 = "if ?same then Suc k else k"
      from rest Return have loop: "emit_loop n e t ?k1 (results @ [(?subs ! k, x)]) w2 = Some (r, w1)"
        by simp
      have ok1: "removals_ok e ?k1 (since w2 w1)"
        using removals_ok_head[OF emit_loop_since_head[OF loop], of k] ok(2) by simp
      have sortedT2: "sorted_wrt (<) (targets e w2)"
        using wf2 by (simp add: well_formed_def targets_def)
      have a': "set (take ?k1 (targets e w2)) \<subseteq> set (L @ [?c])"
      proof (cases ?same)
        case True
        then have "take (Suc k) (targets e w2) = take k (targets e w2) @ [?c]"
          by (simp add: targets_def take_Suc_conv_app_nth)
        with True keep(2) Suc.prems(5) show ?thesis by auto
      next
        case False
        with keep(2) Suc.prems(5) show ?thesis by auto
      qed
      have above: "?c < y" if y: "y \<in> set (drop ?k1 (targets e w2))" for y
      proof (cases ?same)
        case True
        then have k2: "targets e w2 ! k = ?c" by (simp add: targets_def)
        from y True have "y \<in> set (drop (Suc k) (targets e w2))" by simp
        from sorted_drop_gt[OF sortedT2 this] k2 show ?thesis by simp
      next
        case False
        with y have yk: "y \<in> set (drop k (targets e w2))" by simp
        then have ge: "?c \<le> y" using keep(3) by blast
        from sorted_drop_ge[OF sortedT2 yk] have k2: "k < length (targets e w2)"
          and le: "targets e w2 ! k \<le> y" by simp_all
        have "targets e w2 ! k \<in> set (drop k (targets e w2))" by (rule nth_in_drop[OF k2])
        then have lo: "?c \<le> targets e w2 ! k" using keep(3) by blast
        have "targets e w2 ! k \<noteq> ?c" using False k2 by (simp add: targets_def)
        with lo le show ?thesis by simp
      qed
      have b': "\<forall>x\<in>set (L @ [?c]). \<forall>y\<in>set (drop ?k1 (targets e w2)). x < y"
      proof (intro ballI)
        fix x y assume x: "x \<in> set (L @ [?c])" and y: "y \<in> set (drop ?k1 (targets e w2))"
        have "x \<le> ?c" using x L_lt by auto
        with above[OF y] show "x < y" by simp
      qed
      from Suc.IH[OF loop wf2 fr2 ok1 a' b' sortedL'] show ?thesis
        unfolding cs by simp
    qed
  qed
qed




lemma splice1_shorter: "i < length xs \<Longrightarrow> length (splice1 i xs) < length xs"
  by (simp add: splice1_def)

lemma run_script_shrinks:
  "no_subscribe s \<Longrightarrow>
   (subscriptions (emitters (snd (run_script s w)) e) = subscriptions (emitters w e) \<or>
    length (subscriptions (emitters (snd (run_script s w)) e)) < length (subscriptions (emitters w e))) \<and>
   set (subscriptions (emitters (snd (run_script s w)) e)) \<subseteq> set (subscriptions (emitters w e))"
proof (induction s arbitrary: w)
  case (Done r) then show ?case by simp
next
  case (Subscribe e' l f) then show ?case by simp
next
  case (Remove e' tg s)
  let ?w1 = "remove e' tg w"
  have step: "(subscriptions (emitters ?w1 e) = subscriptions (emitters w e) \<or>
      length (subscriptions (emitters ?w1 e)) < length (subscriptions (emitters w e))) \<and>
     set (subscriptions (emitters ?w1 e)) \<subseteq> set (subscriptions (emitters w e))"
  proof (cases "e' = e")
    case False then show ?thesis by (simp add: remove_fields)
  next
    case True
    show ?thesis
    proof (cases "remove_scan 0 tg (subscriptions (emitters w e))")
      case None with True show ?thesis by (simp add: remove_table)
    next
      case (Some i)
      from remove_scan_Some[OF Some] have "i < length (subscriptions (emitters w e))" by simp
      with True Some show ?thesis by (simp add: remove_table splice1_shorter set_splice)
    qed
  qed
  from Remove.IH[of ?w1] Remove.prems have ih:
    "(subscriptions (emitters (snd (run_script s ?w1)) e) = subscriptions (emitters ?w1 e) \<or>
      length (subscriptions (emitters (snd (run_script s ?w1)) e)) < length (subscriptions (emitters ?w1 e))) \<and>
     set (subscriptions (emitters (snd (run_script s ?w1)) e)) \<subseteq> set (subscriptions (emitters ?w1 e))"
    by simp
  from step ih show ?case by (auto simp del: run_script.simps simp add: run_script.simps(3))
next
  case (Resolve c v s)
  from Resolve.IH[of "resolve c v w"] Resolve.prems show ?case by (simp add: resolve_fields)
qed

lemma walk_ends:
  "\<forall>s\<in>set (subscriptions (emitters w e)). no_subscribe (snd (listener s) t) \<Longrightarrow>
   length (subscriptions (emitters w e)) - k < n \<Longrightarrow>
   \<exists>r w1. emit_loop n e t k results w = Some (r, w1)"
proof (induction n arbitrary: k results w)
  case 0 then show ?case by simp
next
  case (Suc n)
  let ?subs = "subscriptions (emitters w e)"
  show ?case
  proof (cases "k < length ?subs")
    case False then show ?thesis by simp
  next
    case True
    let ?w0 = "w\<lparr>history := history w @ [Invoked e k (target (?subs ! k)) t]\<rparr>"
    let ?s = "snd (listener (?subs ! k)) t"
    obtain out w2 where run: "run_script ?s ?w0 = (out, w2)" by (meson surj_pair)
    have ns: "no_subscribe ?s" using Suc.prems(1) True by simp
    from run_script_shrinks[OF ns, of ?w0 e] run have
      shr: "subscriptions (emitters w2 e) = ?subs \<or> length (subscriptions (emitters w2 e)) < length ?subs"
      and sub: "set (subscriptions (emitters w2 e)) \<subseteq> set ?subs" by simp_all
    let ?k1 = "if k < length (subscriptions (emitters w2 e)) \<and>
                  target (subscriptions (emitters w2 e) ! k) = target (?subs ! k) then Suc k else k"
    show ?thesis
    proof (cases out)
      case (Throw err)
      then show ?thesis unfolding emit_loop_unfold[OF True run] by simp
    next
      case (Return x)
      have q: "\<forall>s\<in>set (subscriptions (emitters w2 e)). no_subscribe (snd (listener s) t)"
        using Suc.prems(1) sub by blast
      have m: "length (subscriptions (emitters w2 e)) - ?k1 < n"
        using shr Suc.prems(2) True by auto
      from Suc.IH[OF q m] Return show ?thesis unfolding emit_loop_unfold[OF True run] by simp
    qed
  qed
qed

lemma next_then_fast_fields:
  "subscriptions (emitters next_then_fast e) =
     (if e = 0 then [\<lparr>target = 2, listener = next_listener 0 2 1 None\<rparr>, \<lparr>target = 3, listener = fast\<rparr>]
      else [])"
  "opts (emitters next_then_fast e) = \<lparr>emitTimeout = None\<rparr>"
  "history next_then_fast = [Pushed 0 2, Pushed 0 3]"
  "fresh next_then_fast = 4"
  "cells next_then_fast c = None"
  by (simp_all add: next_then_fast_def next_def Let_def split_beta subscribe_fields subscribe_opts
      create_fields create_opts initial_def eval_nat_numeral)

lemma emit_next_then_fast:
  "\<exists>p w1. emit 3 0 (Num 0) 0 next_then_fast = Some (Inr p, w1) \<and>
          history w1 = [Pushed 0 2, Pushed 0 3, Invoked 0 0 2 (Num 0), Spliced 0 0, Invoked 0 0 3 (Num 0)] \<and>
          targets 0 w1 = [3]"
  by (simp add: eval_nat_numeral next_then_fast_fields next_listener_def accepts_def Let_def remove_def
      remove_scan.simps[of 0] splice1_def resolve_def fast_def delay_def entry_promise_def
      forward_def then_emit_def targets_def)

text \<open>
  Claim C3. Take a well-formed world and an emission on an emitter \<open>e\<close> that exists,
  during which every \<open>remove\<close> on \<open>e\<close> made by a listener takes out the entry at
  the loop's position or at a later one (\<open>removals_ok\<close>: the current entry or a later
  entry). Then the listeners are called in the order of registration and none twice (the
  called targets increase), each with the emitted value, and when the walk is over every
  entry still in the table has been called: none is skipped. The walk is over after at
  most one step per entry when no listener subscribes.
\<close>

theorem emit_calls_each_entry_once:
  assumes "well_formed w" and "e < fresh w"
  shows "(emit n e t now w = Some (r, w1) \<and> removals_ok e 0 (since w w1) \<longrightarrow>
            sorted_wrt (<) (map fst (calls e (since w w1))) \<and>
            (\<forall>c\<in>set (calls e (since w w1)). snd c = t) \<and>
            ((\<exists>p. r = Inr p) \<longrightarrow> set (targets e w1) \<subseteq> fst ` set (calls e (since w w1)))) \<and>
         ((\<forall>s\<in>set (subscriptions (emitters w e)). no_subscribe (snd (listener s) t)) \<longrightarrow>
            (\<exists>r w1. emit_loop (Suc (length (subscriptions (emitters w e)))) e t 0 [] w = Some (r, w1)))"
proof -
  have walk: "sorted_wrt (<) (map fst (calls e (since w w1))) \<and>
        (\<forall>c\<in>set (calls e (since w w1)). snd c = t) \<and>
        ((\<exists>p. r = Inr p) \<longrightarrow> set (targets e w1) \<subseteq> fst ` set (calls e (since w w1)))"
    if a: "emit n e t now w = Some (r, w1)" and ok: "removals_ok e 0 (since w w1)"
  proof -
    from a obtain r1 where loop: "emit_loop n e t 0 [] w = Some (r1, w1)"
      using emit_world by blast
    have r1: "\<exists>collected. r1 = Inr collected" if "\<exists>p. r = Inr p"
      using that a loop by (cases n) (auto split: option.splits sum.splits prod.splits)
    from emit_loop_walk[OF loop assms ok, of "[]"] r1 show ?thesis by auto
  qed
  have ends: "\<exists>r w1. emit_loop (Suc (length (subscriptions (emitters w e)))) e t 0 [] w = Some (r, w1)"
    if "\<forall>s\<in>set (subscriptions (emitters w e)). no_subscribe (snd (listener s) t)"
    using that by (rule walk_ends) simp
  from walk ends show ?thesis by blast
qed

lemma well_formed_next_then_fast: "well_formed next_then_fast"
  unfolding next_then_fast_def
  by (intro well_formed_subscribe well_formed_next well_formed_create well_formed_initial)

theorem emit_calls_each_entry_once_witness:
  "calls 0 (since next_then_fast (snd (the (emit 3 0 (Num 0) 0 next_then_fast)))) =
     [(2, Num 0), (3, Num 0)] \<and>
   targets 0 (snd (the (emit 3 0 (Num 0) 0 next_then_fast))) = [3] \<and>
   sorted_wrt (<) (map fst (calls 0 (since next_then_fast (snd (the (emit 3 0 (Num 0) 0 next_then_fast)))))) \<and>
   set (targets 0 (snd (the (emit 3 0 (Num 0) 0 next_then_fast)))) \<subseteq>
     fst ` set (calls 0 (since next_then_fast (snd (the (emit 3 0 (Num 0) 0 next_then_fast)))))"
proof -
  from emit_next_then_fast obtain p w1 where
    run: "emit 3 0 (Num 0) 0 next_then_fast = Some (Inr p, w1)" and
    h: "history w1 = [Pushed 0 2, Pushed 0 3, Invoked 0 0 2 (Num 0), Spliced 0 0, Invoked 0 0 3 (Num 0)]" and
    tg: "targets 0 w1 = [3]" by blast
  have s: "since next_then_fast w1 = [Invoked 0 0 2 (Num 0), Spliced 0 0, Invoked 0 0 3 (Num 0)]"
    by (simp add: since_def h next_then_fast_fields)
  have ok: "removals_ok 0 0 (since next_then_fast w1)" unfolding s by simp
  have fr: "0 < fresh next_then_fast" by (simp add: next_then_fast_fields)
  from emit_calls_each_entry_once[OF well_formed_next_then_fast fr, of 3 "Num 0" 0 "Inr p" w1]
    run ok
  have "sorted_wrt (<) (map fst (calls 0 (since next_then_fast w1))) \<and>
        set (targets 0 w1) \<subseteq> fst ` set (calls 0 (since next_then_fast w1))" by blast
  moreover have "calls 0 (since next_then_fast w1) = [(2, Num 0), (3, Num 0)]" unfolding s by simp
  ultimately show ?thesis using tg by (simp add: run)
qed






section \<open>Properties of emit: timeouts\<close>

lemma timeouts_world_fields:
  "subscriptions (emitters (timeouts_world a b) e) =
     (if e = 0 then [\<lparr>target = 1, listener = a\<rparr>, \<lparr>target = 2, listener = b\<rparr>] else [])"
  "opts (emitters (timeouts_world a b) 0) = \<lparr>emitTimeout = Some 10\<rparr>"
  by (simp_all add: timeouts_world_def subscribe_fields subscribe_opts create_fields create_opts
      initial_def)

lemma emit_timeouts_world:
  "map_option fst (emit 3 0 (Num 0) 0
     (timeouts_world (da, \<lambda>v. Done (Return (delay ta))) (db, \<lambda>v. Done (Return (delay tb))))) =
   Some (Inr (waitAll 0 [catch_rethrow (stamp db) (timeout 0 (Fulfilled ta Undefined) 10),
                         catch_rethrow (stamp db) (timeout 0 (Fulfilled tb Undefined) 10)]))"
  by (simp add: timeouts_world_fields numeral_3_eq_3 delay_def entry_promise_def forward_def then_emit_def
      Let_def waitAll_empty)

text \<open>
  Claim C1, evaluated. With \<open>fast\<close> subscribed before \<open>slow\<close> (the order of the test)
  the emission fails at 10 ms with a \<open>TimeoutError\<close> that names \<open>slow\<close>. With
  \<open>slow\<close> subscribed before \<open>fast\<close> it is again the race of \<open>slow\<close> that times
  out, and the error names \<open>fast\<close>: the handler reads the variable \<open>current\<close> when it
  runs, after the loop, and finds the last entry of the table there.
\<close>

theorem timeout_names_last_entry:
  "map_option fst (emit 3 0 (Num 0) 0 (timeouts_world fast slow)) =
     Some (Inr (Rejected 10 (TimeoutError ''function slow() { return delay(50); }''))) \<and>
   map_option fst (emit 3 0 (Num 0) 0 (timeouts_world slow fast)) =
     Some (Inr (Rejected 10 (TimeoutError ''function fast() { return delay(1); }'')))"
  unfolding slow_def fast_def emit_timeouts_world
  by (simp add: waitAll_def settlement_order_def timeout_def race_def catch_rethrow_def
      stamp_def unknown_def Let_def settle_def)

lemma timeout_eq:
  "timeout now q d =
     (if settled_before (now + d) q then q else Rejected (now + d) (TimeoutError unknown))"
  by (cases q) (auto simp: timeout_def race_def Let_def)














section \<open>Properties of emit: the transitive wait\<close>







lemma map_eq_map_Some_elem':
  assumes "map f xs = map Some ys" and "y \<in> set ys"
  shows "\<exists>x\<in>set xs. f x = Some y"
proof -
  from assms(2) obtain i where i: "i < length ys" "y = ys ! i" unfolding in_set_conv_nth by blast
  have "length (map f xs) = length (map Some ys)" by (simp only: assms(1))
  then have len: "length xs = length ys" by simp
  have "map f xs ! i = map Some ys ! i" by (simp only: assms(1))
  with i len have "f (xs ! i) = Some y" by simp
  moreover have "xs ! i \<in> set xs" using i len by simp
  ultimately show ?thesis by blast
qed



lemma raced_of_rejected:
  "\<exists>t' err'. catch_rethrow (stamp s) (timeout now (Rejected t err) d) = Rejected t' err'"
  by (simp add: timeout_eq catch_rethrow_def)













section \<open>Properties of next\<close>



























end
